theory Spec2Isabelle
  imports Complex_Main "HOL-Library.Log_Nat"
begin

section \<open>The scheduler of the Game of Life page (www/index.ts)\<close>

text \<open>
  The page drives a WebAssembly universe from the browser's animation frames. This theory
  embeds the part of \<^verbatim>\<open>www/index.ts\<close> that decides when the universe is ticked: the
  handlers of the play/pause button and of the rate slider, the \<^verbatim>\<open>fps\<close> object and the
  body of \<^verbatim>\<open>renderLoop\<close>, in its current revision and in the revision before it.

  JavaScript numbers are doubles. The code is embedded twice: with exact arithmetic over
  \<^typ>\<open>real\<close>, and with every arithmetic operation rounded to a double (the functions with
  the suffix \<open>_fl\<close>). What only depends on the order of the tests and on the clamp is
  proved on the exact embedding; what turns on the result of a subtraction or an addition
  (the bound on the ticks of the catch-up loop, the frame on the exact boundary of the skip
  test) is proved on the rounded one. Infinities and NaN are left out of both.

  The universe is a black box of the page: the model counts the calls of
  \<^verbatim>\<open>universe.tick()\<close> and of \<^verbatim>\<open>drawCells()\<close>. The text written into the DOM is not
  modelled.
\<close>

subsection \<open>Arrays\<close>

text \<open>\<^verbatim>\<open>xs.unshift(x)\<close> puts \<open>x\<close> in front of the array.\<close>

definition unshift :: "'a \<Rightarrow> 'a list \<Rightarrow> 'a list" where
  "unshift x xs = x # xs"

text \<open>\<^verbatim>\<open>xs.splice(n)\<close>, with one argument, removes every element from index \<open>n\<close> on.\<close>

definition splice :: "nat \<Rightarrow> 'a list \<Rightarrow> 'a list" where
  "splice n xs = take n xs"

text \<open>
  The two statements \<^verbatim>\<open>xs.unshift(x); xs.splice(100);\<close> that \<^verbatim>\<open>fps.render\<close> applies to
  \<^verbatim>\<open>this.frames\<close> and the catch-up loop to \<^verbatim>\<open>tickTimes\<close> ("Save only the latest 100
  timings").
\<close>

definition record_sample :: "'a \<Rightarrow> 'a list \<Rightarrow> 'a list" where
  "record_sample x xs = splice 100 (unshift x xs)"

subsection \<open>The rate slider\<close>

text \<open>
  The handler of the slider's \<^verbatim>\<open>input\<close> event converts the slider's value ("0-25-100 to
  0.2-1-1000"). The two formulas are the two branches of its \<^verbatim>\<open>if (rate < 25)\<close>;
  \<^verbatim>\<open>Math.pow(x, 2)\<close> is the square.
\<close>

definition rate_linear :: "real \<Rightarrow> real" where
  "rate_linear rate = 0.2 + (rate / 25) * 0.8"

definition rate_pow :: "real \<Rightarrow> real" where
  "rate_pow rate = 1 + ((rate - 25) / 75) ^ 2 * 999"

definition rateSlider_rate :: "real \<Rightarrow> real" where
  "rateSlider_rate rate = (if rate < 25 then rate_linear rate else rate_pow rate)"

subsection \<open>The state of the page\<close>

text \<open>
  The module's variables \<^verbatim>\<open>paused\<close> and \<^verbatim>\<open>interval\<close>, the fields \<^verbatim>\<open>frames\<close> and
  \<^verbatim>\<open>lastFrameTimeStamp\<close> of the \<^verbatim>\<open>fps\<close> object, and the variables of \<^verbatim>\<open>renderLoop\<close>
  that live across frames. \<open>ticks\<close> counts the calls of \<^verbatim>\<open>universe.tick()\<close> and \<open>draws\<close>
  the calls of \<^verbatim>\<open>drawCells()\<close> made so far.
\<close>

record page =
  paused :: bool
  interval :: real
  frames :: "real list"
  lastFrameTimeStamp :: real
  lastFrameStart :: real
  delta :: real
  tickTimes :: "real list"
  lastFrameEnd :: real
  ticks :: nat
  draws :: nat

text \<open>The click handler of the play/pause button.\<close>

definition playPause_click :: "page \<Rightarrow> page" where
  "playPause_click s = s\<lparr>paused := \<not> paused s\<rparr>"

text \<open>
  The input handler of the slider: \<^verbatim>\<open>interval = 1000 / rate\<close>. The slider's value is in
  \<open>[0, 100]\<close>, where the rate is at least 0.2, so the division is never by zero.
\<close>

definition rateSlider_input :: "real \<Rightarrow> page \<Rightarrow> page" where
  "rateSlider_input rate s = s\<lparr>interval := 1000 / rateSlider_rate rate\<rparr>"

text \<open>\<^verbatim>\<open>fps.render()\<close>, given the value \<open>now\<close> that its \<^verbatim>\<open>performance.now()\<close> returns.\<close>

definition fps_render :: "real \<Rightarrow> page \<Rightarrow> page" where
  "fps_render now s =
     (let frameTime = now - lastFrameTimeStamp s;
          s1 = s\<lparr>lastFrameTimeStamp := now\<rparr>
      in s1\<lparr>frames := record_sample frameTime (frames s1)\<rparr>)"

subsection \<open>One frame of renderLoop\<close>

text \<open>
  The clock of a frame is the sequence of values that \<^verbatim>\<open>performance.now()\<close> returns while
  the frame is processed: \<open>clock 0\<close> is read by \<^verbatim>\<open>fps.render()\<close>, \<open>clock 1\<close>,
  \<open>clock 2\<close>, ... after each tick of the catch-up loop, and the next one when the frame ends.

  The catch-up loop \<^verbatim>\<open>while (delta > interval)\<close>. It returns the index of the next clock
  reading with the state. Nothing bounds the loop when \<open>interval\<close> is not positive and the
  clock stays within the budget, so the loop is a partial function: \<open>None\<close> stands for a
  loop that never ends.
\<close>

partial_function (option) catchUp ::
  "(nat \<Rightarrow> real) \<Rightarrow> real \<Rightarrow> real \<Rightarrow> nat \<Rightarrow> page \<Rightarrow> (nat \<times> page) option" where
  "catchUp clock thisFrameStart maxFrameTime k s =
     (if delta s > interval s then
        let s1 = s\<lparr>ticks := ticks s + 1\<rparr>;
            s2 = s1\<lparr>delta := delta s1 - interval s1\<rparr>;
            now = clock k;
            s3 = s2\<lparr>tickTimes := record_sample now (tickTimes s2)\<rparr>
        in if now - thisFrameStart > maxFrameTime then Some (k + 1, s3)
           else catchUp clock thisFrameStart maxFrameTime (k + 1) s3
      else Some (k, s))"

text \<open>
  The body of \<^verbatim>\<open>while (true)\<close> in \<^verbatim>\<open>renderLoop\<close>, from the timestamp that
  \<^verbatim>\<open>requestAnimationFrame\<close> delivers. \<^verbatim>\<open>continue\<close> leaves the state as it is.
\<close>

definition renderLoop_frame :: "real \<Rightarrow> (nat \<Rightarrow> real) \<Rightarrow> page \<Rightarrow> page option" where
  "renderLoop_frame thisFrameStart clock s =
     (let timeDiff = thisFrameStart - lastFrameStart s in
      if paused s \<or> timeDiff < interval s - delta s then Some s
      else
        let s1 = s\<lparr>delta := delta s + timeDiff\<rparr>;
            s2 = s1\<lparr>lastFrameStart := thisFrameStart\<rparr>;
            idleTime = thisFrameStart - lastFrameEnd s2;
            maxFrameTime = min 100 (idleTime * 4);
            s3 = fps_render (clock 0) s2
        in case catchUp clock thisFrameStart maxFrameTime 1 s3 of
             None \<Rightarrow> None
           | Some (k, s4) \<Rightarrow>
               let s5 = s4\<lparr>delta := min (interval s4) (delta s4)\<rparr>;
                   s6 = s5\<lparr>draws := draws s5 + 1\<rparr>
               in Some (s6\<lparr>lastFrameEnd := clock k\<rparr>))"

subsection \<open>The revision before\<close>

text \<open>
  The revision before the current one has no \<^verbatim>\<open>tickTimes\<close> and no \<^verbatim>\<open>lastFrameEnd\<close>: its
  loop stops once a tick ends more than 5 ms after the frame started, and \<^verbatim>\<open>fps.render()\<close>
  comes before the accumulation. It calls \<^verbatim>\<open>lastFrameStart\<close> \<^verbatim>\<open>lastTime\<close> and
  \<^verbatim>\<open>thisFrameStart\<close> \<^verbatim>\<open>time\<close>. Its counter \<^verbatim>\<open>count\<close> only feeds the console.
\<close>

partial_function (option) catchUp_prev ::
  "(nat \<Rightarrow> real) \<Rightarrow> real \<Rightarrow> nat \<Rightarrow> page \<Rightarrow> (nat \<times> page) option" where
  "catchUp_prev clock time k s =
     (if delta s > interval s then
        let s1 = s\<lparr>ticks := ticks s + 1\<rparr>;
            s2 = s1\<lparr>delta := delta s1 - interval s1\<rparr>
        in if clock k - time > 5 then Some (k + 1, s2)
           else catchUp_prev clock time (k + 1) s2
      else Some (k, s))"

definition renderLoop_frame_prev :: "real \<Rightarrow> (nat \<Rightarrow> real) \<Rightarrow> page \<Rightarrow> page option" where
  "renderLoop_frame_prev time clock s =
     (let timeDiff = time - lastFrameStart s in
      if paused s \<or> timeDiff < interval s - delta s then Some s
      else
        let s1 = fps_render (clock 0) s;
            s2 = s1\<lparr>delta := delta s1 + timeDiff\<rparr>;
            s3 = s2\<lparr>lastFrameStart := time\<rparr>
        in case catchUp_prev clock time 1 s3 of
             None \<Rightarrow> None
           | Some (k, s4) \<Rightarrow>
               let s5 = s4\<lparr>delta := min (interval s4) (delta s4)\<rparr>
               in Some (s5\<lparr>draws := draws s5 + 1\<rparr>))"

subsection \<open>Events\<close>

text \<open>
  What happens to the page between two suspensions of \<^verbatim>\<open>renderLoop\<close>: an animation frame
  with its timestamp and clock, a click on play/pause, an input of the slider with its value.
\<close>

datatype event = AnimationFrame real "nat \<Rightarrow> real" | PlayPauseClick | RateInput real

fun on_event :: "event \<Rightarrow> page \<Rightarrow> page option" where
  "on_event (AnimationFrame t clock) s = renderLoop_frame t clock s"
| "on_event PlayPauseClick s = Some (playPause_click s)"
| "on_event (RateInput rate) s = Some (rateSlider_input rate s)"

fun run :: "event list \<Rightarrow> page \<Rightarrow> page option" where
  "run [] s = Some s"
| "run (e # es) s = (case on_event e s of None \<Rightarrow> None | Some s' \<Rightarrow> run es s')"

text \<open>The slider delivers values of its range only.\<close>

definition slider_in_range :: "event \<Rightarrow> bool" where
  "slider_in_range e =
     (case e of RateInput rate \<Rightarrow> 0 \<le> rate \<and> rate \<le> 100 | _ \<Rightarrow> True)"

text \<open>
  \<open>n\<close> frames, the \<open>i\<close>-th at \<open>t0 + d * i\<close> with the clock \<open>clocks i\<close>.
\<close>

definition frames_every ::
  "real \<Rightarrow> real \<Rightarrow> (nat \<Rightarrow> nat \<Rightarrow> real) \<Rightarrow> nat \<Rightarrow> event list" where
  "frames_every t0 d clocks n =
     map (\<lambda>i. AnimationFrame (t0 + d * real i) (clocks i)) [1..<Suc n]"

subsection \<open>Doubles\<close>

text \<open>
  Rounding to the nearest double, ties to even: \<open>fl x\<close> is the multiple of \<open>2 powi e\<close>
  nearest to \<open>x\<close>, where \<open>e\<close> leaves 53 significant bits. The exponent is not bounded:
  \<open>fl\<close> is the rounding of binary64 wherever the result neither overflows (\<open>2 ^ 1024\<close> and
  above) nor falls below the normal range (under \<open>2 powi - 1022\<close>) inexactly; sums and
  differences of doubles never do the latter.

  \<open>round_even\<close> is the nearest integer, the even one of two that are equally near.
  \<open>expo x\<close> is the exponent of the leading bit of \<open>x\<close>: \<open>2 powi expo x \<le> \<bar>x\<bar>\<close> and
  \<open>\<bar>x\<bar> \<le> 2 powi (expo x + 1)\<close>.
\<close>

definition round_even :: "real \<Rightarrow> int" where
  "round_even m =
     (let f = \<lfloor>m\<rfloor>; r = m - of_int f
      in if r < 1 / 2 then f else if 1 / 2 < r then f + 1 else if even f then f else f + 1)"

definition expo :: "real \<Rightarrow> int" where
  "expo x = (if 1 \<le> \<bar>x\<bar> then bitlen \<lfloor>\<bar>x\<bar>\<rfloor> - 1 else - bitlen \<lfloor>1 / \<bar>x\<bar>\<rfloor>)"

definition fl :: "real \<Rightarrow> real" where
  "fl x =
     (if x = 0 then 0
      else let e = expo x - 52
           in sgn x * of_int (round_even (\<bar>x\<bar> / 2 powi e)) * 2 powi e)"

text \<open>The relative error of one rounding is at most \<open>2 powi - 53\<close>.\<close>

definition unit_roundoff :: real where
  "unit_roundoff = 1 / 2 ^ 53"

subsection \<open>The code in double arithmetic\<close>

text \<open>
  The slider's handler, \<^verbatim>\<open>fps.render()\<close>, the catch-up loop and the frame again, each
  operation of the source followed by one rounding. The literals \<^verbatim>\<open>0.2\<close> and \<^verbatim>\<open>0.8\<close>
  are the doubles nearest to 2/10 and 8/10; \<^verbatim>\<open>Math.pow(x, 2)\<close> is the rounded product
  \<open>x * x\<close>; \<^verbatim>\<open>Math.min\<close> and the comparisons are exact.
\<close>

definition rateSlider_rate_fl :: "real \<Rightarrow> real" where
  "rateSlider_rate_fl rate =
     (if rate < 25 then fl (fl (2 / 10) + fl (fl (rate / 25) * fl (8 / 10)))
      else let x = fl (fl (rate - 25) / 75)
           in fl (1 + fl (fl (x * x) * 999)))"

definition rateSlider_input_fl :: "real \<Rightarrow> page \<Rightarrow> page" where
  "rateSlider_input_fl rate s = s\<lparr>interval := fl (1000 / rateSlider_rate_fl rate)\<rparr>"

definition fps_render_fl :: "real \<Rightarrow> page \<Rightarrow> page" where
  "fps_render_fl now s =
     (let frameTime = fl (now - lastFrameTimeStamp s);
          s1 = s\<lparr>lastFrameTimeStamp := now\<rparr>
      in s1\<lparr>frames := record_sample frameTime (frames s1)\<rparr>)"

partial_function (option) catchUp_fl ::
  "(nat \<Rightarrow> real) \<Rightarrow> real \<Rightarrow> real \<Rightarrow> nat \<Rightarrow> page \<Rightarrow> (nat \<times> page) option" where
  "catchUp_fl clock thisFrameStart maxFrameTime k s =
     (if delta s > interval s then
        let s1 = s\<lparr>ticks := ticks s + 1\<rparr>;
            s2 = s1\<lparr>delta := fl (delta s1 - interval s1)\<rparr>;
            now = clock k;
            s3 = s2\<lparr>tickTimes := record_sample now (tickTimes s2)\<rparr>
        in if fl (now - thisFrameStart) > maxFrameTime then Some (k + 1, s3)
           else catchUp_fl clock thisFrameStart maxFrameTime (k + 1) s3
      else Some (k, s))"

definition renderLoop_frame_fl :: "real \<Rightarrow> (nat \<Rightarrow> real) \<Rightarrow> page \<Rightarrow> page option" where
  "renderLoop_frame_fl thisFrameStart clock s =
     (let timeDiff = fl (thisFrameStart - lastFrameStart s) in
      if paused s \<or> timeDiff < fl (interval s - delta s) then Some s
      else
        let s1 = s\<lparr>delta := fl (delta s + timeDiff)\<rparr>;
            s2 = s1\<lparr>lastFrameStart := thisFrameStart\<rparr>;
            idleTime = fl (thisFrameStart - lastFrameEnd s2);
            maxFrameTime = min 100 (fl (idleTime * 4));
            s3 = fps_render_fl (clock 0) s2
        in case catchUp_fl clock thisFrameStart maxFrameTime 1 s3 of
             None \<Rightarrow> None
           | Some (k, s4) \<Rightarrow>
               let s5 = s4\<lparr>delta := min (interval s4) (delta s4)\<rparr>;
                   s6 = s5\<lparr>draws := draws s5 + 1\<rparr>
               in Some (s6\<lparr>lastFrameEnd := clock k\<rparr>))"

fun on_event_fl :: "event \<Rightarrow> page \<Rightarrow> page option" where
  "on_event_fl (AnimationFrame t clock) s = renderLoop_frame_fl t clock s"
| "on_event_fl PlayPauseClick s = Some (playPause_click s)"
| "on_event_fl (RateInput rate) s = Some (rateSlider_input_fl rate s)"

fun run_fl :: "event list \<Rightarrow> page \<Rightarrow> page option" where
  "run_fl [] s = Some s"
| "run_fl (e # es) s = (case on_event_fl e s of None \<Rightarrow> None | Some s' \<Rightarrow> run_fl es s')"

text \<open>
  The debt after \<open>n\<close> passes of the loop's \<^verbatim>\<open>delta -= interval\<close>, from the debt \<open>d\<close> at the
  start of the loop.
\<close>

fun debt :: "real \<Rightarrow> real \<Rightarrow> nat \<Rightarrow> real" where
  "debt d i 0 = d"
| "debt d i (Suc n) = fl (debt d i n - i)"

subsection \<open>Inputs of the examples\<close>

text \<open>
  A clock whose readings in a frame that starts at \<open>t\<close> are \<open>e\<close> ms apart, and the clocks
  of frames that come every \<open>d\<close> ms.
\<close>

definition steady_clock :: "real \<Rightarrow> real \<Rightarrow> nat \<Rightarrow> real" where
  "steady_clock t e k = t + e * real (Suc k)"

definition steady_clocks :: "real \<Rightarrow> real \<Rightarrow> real \<Rightarrow> nat \<Rightarrow> nat \<Rightarrow> real" where
  "steady_clocks t0 d e i = steady_clock (t0 + d * real i) e"

text \<open>
  A page running at 1 Hz whose last frame started at 0 and ended at 2, with no debt; the
  same page paused; the same page with a debt of 5000 ms; the same page at 30 Hz.
\<close>

definition stalled_page :: page where
  "stalled_page =
     \<lparr>paused = False, interval = 1000, frames = [], lastFrameTimeStamp = 2,
      lastFrameStart = 0, delta = 0, tickTimes = [], lastFrameEnd = 2, ticks = 0, draws = 0\<rparr>"

definition paused_page :: page where
  "paused_page = stalled_page\<lparr>paused := True\<rparr>"

definition indebted_page :: page where
  "indebted_page = stalled_page\<lparr>delta := 5000\<rparr>"

definition page_30Hz :: page where
  "page_30Hz = stalled_page\<lparr>interval := 1000 / 30\<rparr>"

definition session_events :: "event list" where
  "session_events =
     [AnimationFrame 16 (steady_clock 16 1), AnimationFrame 5000 (steady_clock 5000 1),
      RateInput 50, PlayPauseClick, AnimationFrame 5016 (steady_clock 5016 1),
      PlayPauseClick, AnimationFrame 5033 (steady_clock 5033 1)]"

text \<open>
  A clock whose readings are 1/1024 ms apart, and the page as the script sets it up
  (interval 1, no debt, no samples), running and with the clock at 0.
\<close>

definition prompt_clock :: "real \<Rightarrow> nat \<Rightarrow> real" where
  "prompt_clock t k = t + real (Suc k) / 1024"

definition fresh_page :: page where
  "fresh_page =
     \<lparr>paused = False, interval = 1, frames = [], lastFrameTimeStamp = 0,
      lastFrameStart = 0, delta = 0, tickTimes = [], lastFrameEnd = 0, ticks = 0, draws = 0\<rparr>"

text \<open>
  The page after the slider was set to 7, to 100, and the timestamps of the examples: the
  doubles that JavaScript writes 14150.943396226414, 1.17 and 25.4140625. \<open>tie_page\<close> is
  the page after \<open>tie_events\<close>: slider at 100, a frame at 1.17, slider at 40.
\<close>

definition page_slider7 :: page where
  "page_slider7 = fresh_page\<lparr>interval := 5186375602716981 / 2 ^ 41\<rparr>"

definition stamp_14150 :: real where
  "stamp_14150 = 7779563404075471 / 2 ^ 39"

definition page_slider100 :: page where
  "page_slider100 = fresh_page\<lparr>interval := 1\<rparr>"

definition stamp_1_17 :: real where
  "stamp_1_17 = 658651445502935 / 2 ^ 49"

definition stamp_25_41 :: real where
  "stamp_25_41 = 3253 / 2 ^ 7"

definition tie_events :: "event list" where
  "tie_events =
     [RateInput 100, AnimationFrame stamp_1_17 (prompt_clock stamp_1_17), RateInput 40]"

definition tie_page :: page where
  "tie_page =
     \<lparr>paused = False, interval = 6871947673599999 / 2 ^ 48,
      frames = [659201201316823 / 2 ^ 49], lastFrameTimeStamp = prompt_clock stamp_1_17 0,
      lastFrameStart = stamp_1_17, delta = 95701492081623 / 2 ^ 49,
      tickTimes = [prompt_clock stamp_1_17 1], lastFrameEnd = prompt_clock stamp_1_17 2,
      ticks = 1, draws = 1\<rparr>"

section \<open>Properties\<close>

subsection \<open>The sample window\<close>

lemma take_append_take: "take n (ys @ take n zs) = take n (ys @ zs)"
  by (simp add: min_def)

lemma fold_record_sample: "fold record_sample xs w = take 100 (rev xs @ w)"
  if "length w \<le> 100"
  using that
proof (induction xs arbitrary: w)
  case Nil
  then show ?case by simp
next
  case (Cons x xs)
  have "fold record_sample (x # xs) w = fold record_sample xs (record_sample x w)"
    by simp
  also have "\<dots> = take 100 (rev xs @ record_sample x w)"
    by (rule Cons.IH) (simp add: record_sample_def splice_def unshift_def)
  also have "\<dots> = take 100 (rev xs @ x # w)"
    unfolding record_sample_def splice_def unshift_def by (rule take_append_take)
  finally show ?case by simp
qed

text \<open>
  C6. Whatever samples are recorded into an empty window, the window never holds more than
  100 of them and holds the latest ones, the most recent first; after 150 samples it holds
  exactly the last 100 that arrived, the first 50 having been dropped from the back.
\<close>

theorem window_bound:
  "length (fold record_sample xs []) \<le> 100
   \<and> fold record_sample xs [] = take 100 (rev xs)
   \<and> (length xs = 150 \<longrightarrow>
        length (fold record_sample xs []) = 100
        \<and> fold record_sample xs [] = rev (drop 50 xs))"
proof -
  have eq: "fold record_sample xs [] = take 100 (rev xs)"
    using fold_record_sample [of "[]" xs] by simp
  have "take 100 (rev xs) = rev (drop 50 xs)" if "length xs = 150"
    using that by (simp add: take_rev)
  with eq show ?thesis by auto
qed

theorem window_bound_witness:
  "length (map real [0..<150]) = 150
   \<and> length (fold record_sample (map real [0..<150]) []) = 100
   \<and> fold record_sample (map real [0..<150]) [] = rev (drop 50 (map real [0..<150]))"
proof -
  have len: "length (map real [0..<150]) = 150" by simp
  with window_bound [of "map real [0..<150]"] show ?thesis by blast
qed

subsection \<open>The rate mapping\<close>

lemma rateSlider_rate_le:
  "rateSlider_rate = (\<lambda>x. if x \<le> 25 then rate_linear x else rate_pow x)"
  by (rule ext) (simp add: rateSlider_rate_def rate_linear_def rate_pow_def)

lemma rateSlider_rate_isCont: "isCont rateSlider_rate 25"
  unfolding rateSlider_rate_le
proof (rule isCont_If_ge)
  show "continuous (at_left 25) rate_linear"
    unfolding rate_linear_def by (intro continuous_intros) simp_all
  have "isCont rate_pow 25"
    unfolding rate_pow_def by (intro continuous_intros) simp_all
  then have "(rate_pow \<longlongrightarrow> rate_pow 25) (at_right 25)"
    by (simp add: continuous_within filterlim_at_split isCont_def)
  then show "(rate_pow \<longlongrightarrow> rate_linear 25) (at_right 25)"
    by (simp add: rate_pow_def rate_linear_def)
qed

text \<open>
  C8. The slider's value 0 gives the rate 0.2 and the value 100 the rate 1000; at the
  value 25, where the handler changes branch, both formulas give 1, which is the rate the
  handler computes there, and the mapping is continuous at 25.
\<close>

theorem rate_mapping_endpoints:
  "rateSlider_rate 0 = 0.2 \<and> rateSlider_rate 100 = 1000
   \<and> rate_linear 25 = 1 \<and> rate_pow 25 = 1 \<and> rateSlider_rate 25 = 1
   \<and> isCont rateSlider_rate 25"
  using rateSlider_rate_isCont
  by (simp add: rateSlider_rate_def rate_linear_def rate_pow_def)

lemma rate_linear_mono: "a \<le> b \<Longrightarrow> rate_linear a \<le> rate_linear b"
  by (simp add: rate_linear_def)

lemma rate_pow_mono: "25 \<le> a \<Longrightarrow> a \<le> b \<Longrightarrow> rate_pow a \<le> rate_pow b"
proof -
  assume a: "25 \<le> a" and ab: "a \<le> b"
  have "((a - 25) / 75) ^ 2 \<le> ((b - 25) / 75) ^ 2"
    by (rule power_mono) (use a ab in \<open>simp_all add: divide_right_mono\<close>)
  then show ?thesis by (simp add: rate_pow_def)
qed

lemma rate_linear_below: "a < 25 \<Longrightarrow> rate_linear a < 1"
  by (simp add: rate_linear_def)

lemma rate_pow_above: "1 \<le> rate_pow b"
  by (simp add: rate_pow_def)

text \<open>
  C9. The slider's mapping is monotone on its domain: for \<open>a < b\<close> in \<open>[0, 100]\<close> the rate
  of \<open>a\<close> is at most the rate of \<open>b\<close>, also when \<open>a\<close> is below 25 and \<open>b\<close> is not.
\<close>

theorem rate_mapping_monotone:
  assumes "0 \<le> a" and "a < b" and "b \<le> 100"
  shows "rateSlider_rate a \<le> rateSlider_rate b"
proof (cases "b < 25")
  case True
  with assms show ?thesis
    by (simp add: rateSlider_rate_def rate_linear_mono)
next
  case False
  show ?thesis
  proof (cases "a < 25")
    case True
    have "rate_linear a < 1" using True by (rule rate_linear_below)
    also have "1 \<le> rate_pow b" by (rule rate_pow_above)
    finally show ?thesis
      using True False by (simp add: rateSlider_rate_def)
  next
    case False
    with assms \<open>\<not> b < 25\<close> show ?thesis
      by (simp add: rateSlider_rate_def rate_pow_mono)
  qed
qed

theorem rate_mapping_monotone_witness:
  "(0::real) \<le> 10 \<and> (10::real) < 40 \<and> (40::real) \<le> 100
   \<and> rateSlider_rate 10 \<le> rateSlider_rate 40"
  using rate_mapping_monotone [of 10 40] by simp

lemma rateSlider_rate_pos: "0 \<le> r \<Longrightarrow> 0 < rateSlider_rate r"
proof -
  assume r: "0 \<le> r"
  have "0 < rate_linear r" using r by (simp add: rate_linear_def add_pos_nonneg)
  moreover have "0 < rate_pow r" by (simp add: rate_pow_def add_pos_nonneg)
  ultimately show ?thesis by (simp add: rateSlider_rate_def)
qed

subsection \<open>The catch-up loop\<close>

text \<open>
  One unfolding of the loop, by the test of the \<^verbatim>\<open>while\<close> and the test of the budget.
\<close>

lemma catchUp_stop:
  "\<not> delta s > interval s \<Longrightarrow> catchUp clock t m k s = Some (k, s)"
  by (subst catchUp.simps) simp

lemma catchUp_break:
  "delta s > interval s \<Longrightarrow> clock k - t > m \<Longrightarrow>
   catchUp clock t m k s =
     Some (k + 1, s\<lparr>ticks := ticks s + 1, delta := delta s - interval s,
                    tickTimes := record_sample (clock k) (tickTimes s)\<rparr>)"
  by (subst catchUp.simps) (simp add: Let_def)

lemma catchUp_again:
  "delta s > interval s \<Longrightarrow> \<not> clock k - t > m \<Longrightarrow>
   catchUp clock t m k s =
     catchUp clock t m (k + 1)
       (s\<lparr>ticks := ticks s + 1, delta := delta s - interval s,
          tickTimes := record_sample (clock k) (tickTimes s)\<rparr>)"
  by (subst catchUp.simps) (simp add: Let_def)

lemma floor_debt_less:
  fixes d i :: real
  assumes "0 < i" and "i < d"
  shows "nat \<lfloor>(d - i) / i\<rfloor> < nat \<lfloor>d / i\<rfloor>"
proof -
  have "d / i - 1 = (d - i) / i" using assms(1) by (simp add: field_simps)
  then have fl: "\<lfloor>(d - i) / i\<rfloor> = \<lfloor>d / i\<rfloor> - 1" by (metis floor_diff_one)
  have "1 \<le> d / i" using assms by simp
  then have "1 \<le> \<lfloor>d / i\<rfloor>" by linarith
  with fl show ?thesis by simp
qed

text \<open>
  With a positive interval the loop ends. It runs \<open>n\<close> times, where \<open>n\<close> intervals are
  less than the debt it started from; it stops when the debt is within one interval or when
  the reading after the last tick is over the budget, and no earlier reading was.
\<close>

lemma catchUp_result:
  assumes "0 < interval s"
  shows "\<exists>n. catchUp clock t m k s =
             Some (k + n, s\<lparr>ticks := ticks s + n, delta := delta s - real n * interval s,
                            tickTimes := fold record_sample (map clock [k..<k + n]) (tickTimes s)\<rparr>)
           \<and> (0 < n \<longrightarrow> real n * interval s < delta s)
           \<and> (interval s < delta s \<longrightarrow> 0 < n)
           \<and> (delta s - real n * interval s \<le> interval s \<or> (0 < n \<and> m < clock (k + n - 1) - t))
           \<and> (\<forall>j. j + 1 < n \<longrightarrow> \<not> m < clock (k + j) - t)"
  using assms
proof (induction "nat \<lfloor>delta s / interval s\<rfloor>" arbitrary: s k rule: less_induct)
  case less
  show ?case
  proof (cases "interval s < delta s")
    case False
    then have "catchUp clock t m k s = Some (k, s)" by (simp add: catchUp_stop)
    with False show ?thesis by (intro exI [of _ 0]) simp
  next
    case True
    let ?s' = "s\<lparr>ticks := ticks s + 1, delta := delta s - interval s,
                 tickTimes := record_sample (clock k) (tickTimes s)\<rparr>"
    show ?thesis
    proof (cases "m < clock k - t")
      case brk: True
      with True have "catchUp clock t m k s = Some (k + 1, ?s')" by (simp add: catchUp_break)
      with True brk show ?thesis by (intro exI [of _ 1]) simp
    next
      case go: False
      have eq: "catchUp clock t m k s = catchUp clock t m (k + 1) ?s'"
        using True go by (simp add: catchUp_again)
      have pos: "0 < interval s" by fact
      have dec: "nat \<lfloor>delta ?s' / interval ?s'\<rfloor> < nat \<lfloor>delta s / interval s\<rfloor>"
        using floor_debt_less [OF pos True] by simp
      from less.hyps [OF dec, of "k + 1"] pos
      obtain n where
        r: "catchUp clock t m (k + 1) ?s' =
             Some (k + 1 + n, ?s'\<lparr>ticks := ticks ?s' + n, delta := delta ?s' - real n * interval ?s',
                            tickTimes := fold record_sample (map clock [k + 1..<k + 1 + n]) (tickTimes ?s')\<rparr>)"
        and a: "0 < n \<longrightarrow> real n * interval ?s' < delta ?s'"
        and c: "delta ?s' - real n * interval ?s' \<le> interval ?s' \<or> (0 < n \<and> m < clock (k + 1 + n - 1) - t)"
        and d: "\<forall>j. j + 1 < n \<longrightarrow> \<not> m < clock (k + 1 + j) - t"
        by auto
      have up: "[k..<k + Suc n] = k # [k + 1..<k + 1 + n]"
        by (simp add: upt_conv_Cons)
      have 1: "catchUp clock t m k s =
             Some (k + Suc n, s\<lparr>ticks := ticks s + Suc n, delta := delta s - real (Suc n) * interval s,
                            tickTimes := fold record_sample (map clock [k..<k + Suc n]) (tickTimes s)\<rparr>)"
        unfolding eq r up by (simp add: algebra_simps)
      have 2: "real (Suc n) * interval s < delta s"
        using a True by (cases n) (simp_all add: algebra_simps)
      have 3: "delta s - real (Suc n) * interval s \<le> interval s \<or> m < clock (k + Suc n - 1) - t"
        using c go by (cases n) (auto simp: algebra_simps)
      have 4: "\<forall>j. j + 1 < Suc n \<longrightarrow> \<not> m < clock (k + j) - t"
      proof (intro allI impI)
        fix j assume "j + 1 < Suc n"
        then show "\<not> m < clock (k + j) - t"
          using d go by (cases j) auto
      qed
      from 1 2 3 4 show ?thesis by (intro exI [of _ "Suc n"]) simp
    qed
  qed
qed

text \<open>
  The interval has to be positive: with an interval of 0 or less, a positive debt and a
  clock that stays within the budget, the loop never ends.
\<close>

lemma catchUp_Some_not_stuck:
  assumes "catchUp clock t m k s = Some r"
  shows "\<not> (interval s \<le> 0 \<and> 0 < delta s \<and> (\<forall>j. clock j - t \<le> m))"
proof (rule catchUp.raw_induct
    [where P = "\<lambda>clock t m k s r. \<not> (interval s \<le> 0 \<and> 0 < delta s \<and> (\<forall>j. clock j - t \<le> m))",
      OF _ assms])
  fix f :: "(nat \<Rightarrow> real) \<Rightarrow> real \<Rightarrow> real \<Rightarrow> nat \<Rightarrow> page \<Rightarrow> (nat \<times> page) option"
  fix clock t m k s r
  assume IH: "\<And>clock t m k s r. f clock t m k s = Some r \<Longrightarrow>
                \<not> (interval s \<le> 0 \<and> 0 < delta s \<and> (\<forall>j. clock j - t \<le> m))"
    and body: "(if interval s < delta s
      then let s1 = s\<lparr>ticks := ticks s + 1\<rparr>;
               s2 = s1\<lparr>delta := delta s1 - interval s1\<rparr>; now = clock k;
               s3 = s2\<lparr>tickTimes := record_sample now (tickTimes s2)\<rparr>
           in if m < now - t then Some (k + 1, s3)
              else f clock t m (k + 1) s3
      else Some (k, s)) = Some r"
  show "\<not> (interval s \<le> 0 \<and> 0 < delta s \<and> (\<forall>j. clock j - t \<le> m))"
  proof
    assume stuck: "interval s \<le> 0 \<and> 0 < delta s \<and> (\<forall>j. clock j - t \<le> m)"
    let ?s' = "s\<lparr>ticks := ticks s + 1, delta := delta s - interval s,
                 tickTimes := record_sample (clock k) (tickTimes s)\<rparr>"
    from stuck have "interval s < delta s" and "\<not> m < clock k - t"
      by (auto simp: not_less)
    with body have "f clock t m (k + 1) ?s' = Some r"
      by (simp add: Let_def)
    from IH [OF this] stuck show False by simp
  qed
qed

lemma catchUp_diverges:
  assumes "interval s \<le> 0" and "0 < delta s" and "\<forall>j. clock j - t \<le> m"
  shows "catchUp clock t m k s = None"
proof (cases "catchUp clock t m k s")
  case None
  then show ?thesis .
next
  case (Some r)
  from catchUp_Some_not_stuck [OF this] assms show ?thesis by blast
qed

subsection \<open>One frame\<close>

lemma renderLoop_frame_skip:
  "paused s \<or> t - lastFrameStart s < interval s - delta s \<Longrightarrow>
   renderLoop_frame t clock s = Some s"
  by (simp add: renderLoop_frame_def)

lemma renderLoop_frame_run:
  assumes "\<not> paused s" and "\<not> t - lastFrameStart s < interval s - delta s"
    and "0 < interval s"
  shows "\<exists>n. renderLoop_frame t clock s =
             Some (s\<lparr>delta := min (interval s) (delta s + (t - lastFrameStart s) - real n * interval s),
                     lastFrameStart := t,
                     lastFrameTimeStamp := clock 0,
                     frames := record_sample (clock 0 - lastFrameTimeStamp s) (frames s),
                     tickTimes := fold record_sample (map clock [1..<1 + n]) (tickTimes s),
                     ticks := ticks s + n,
                     draws := draws s + 1,
                     lastFrameEnd := clock (1 + n)\<rparr>)
           \<and> (0 < n \<longrightarrow> real n * interval s < delta s + (t - lastFrameStart s))
           \<and> (interval s < delta s + (t - lastFrameStart s) \<longrightarrow> 0 < n)
           \<and> (delta s + (t - lastFrameStart s) - real n * interval s \<le> interval s
                \<or> (0 < n \<and> min 100 ((t - lastFrameEnd s) * 4) < clock n - t))
           \<and> (\<forall>j. j + 1 < n \<longrightarrow> \<not> min 100 ((t - lastFrameEnd s) * 4) < clock (1 + j) - t)"
proof -
  let ?s3 = "fps_render (clock 0) (s\<lparr>delta := delta s + (t - lastFrameStart s), lastFrameStart := t\<rparr>)"
  let ?m = "min 100 ((t - lastFrameEnd s) * 4)"
  have i3: "interval ?s3 = interval s" and d3: "delta ?s3 = delta s + (t - lastFrameStart s)"
    by (simp_all add: fps_render_def Let_def)
  from assms(3) i3 have "0 < interval ?s3" by simp
  from catchUp_result [OF this, of clock t ?m 1]
  obtain n where
    r: "catchUp clock t ?m 1 ?s3 =
          Some (1 + n, ?s3\<lparr>ticks := ticks ?s3 + n, delta := delta ?s3 - real n * interval ?s3,
                          tickTimes := fold record_sample (map clock [1..<1 + n]) (tickTimes ?s3)\<rparr>)"
    and a: "0 < n \<longrightarrow> real n * interval ?s3 < delta ?s3"
    and b: "interval ?s3 < delta ?s3 \<longrightarrow> 0 < n"
    and c: "delta ?s3 - real n * interval ?s3 \<le> interval ?s3 \<or> (0 < n \<and> ?m < clock (1 + n - 1) - t)"
    and d: "\<forall>j. j + 1 < n \<longrightarrow> \<not> ?m < clock (1 + j) - t"
    by blast
  have "renderLoop_frame t clock s =
             Some (s\<lparr>delta := min (interval s) (delta s + (t - lastFrameStart s) - real n * interval s),
                     lastFrameStart := t,
                     lastFrameTimeStamp := clock 0,
                     frames := record_sample (clock 0 - lastFrameTimeStamp s) (frames s),
                     tickTimes := fold record_sample (map clock [1..<1 + n]) (tickTimes s),
                     ticks := ticks s + n,
                     draws := draws s + 1,
                     lastFrameEnd := clock (1 + n)\<rparr>)"
    using assms(1,2) r by (simp add: renderLoop_frame_def Let_def) (simp add: fps_render_def Let_def)
  with a b c d show ?thesis
    unfolding i3 d3 by (intro exI [of _ n]) simp
qed

lemma renderLoop_frame_bounds:
  assumes "0 \<le> delta s" and "0 < interval s"
  shows "\<exists>s'. renderLoop_frame t clock s = Some s' \<and> 0 \<le> delta s' \<and> interval s' = interval s
           \<and> (\<not> paused s \<and> \<not> t - lastFrameStart s < interval s - delta s \<longrightarrow>
                 0 < delta s' \<and> delta s' \<le> interval s')"
proof (cases "paused s \<or> t - lastFrameStart s < interval s - delta s")
  case True
  then have "renderLoop_frame t clock s = Some s" by (rule renderLoop_frame_skip)
  with True assms show ?thesis by auto
next
  case False
  then have p: "\<not> paused s" and q: "\<not> t - lastFrameStart s < interval s - delta s"
    by auto
  from renderLoop_frame_run [OF p q assms(2), of clock]
  obtain n where
    r: "renderLoop_frame t clock s =
             Some (s\<lparr>delta := min (interval s) (delta s + (t - lastFrameStart s) - real n * interval s),
                     lastFrameStart := t,
                     lastFrameTimeStamp := clock 0,
                     frames := record_sample (clock 0 - lastFrameTimeStamp s) (frames s),
                     tickTimes := fold record_sample (map clock [1..<1 + n]) (tickTimes s),
                     ticks := ticks s + n,
                     draws := draws s + 1,
                     lastFrameEnd := clock (1 + n)\<rparr>)"
    and a: "0 < n \<longrightarrow> real n * interval s < delta s + (t - lastFrameStart s)"
    by blast
  have "0 < delta s + (t - lastFrameStart s) - real n * interval s"
  proof (cases "0 < n")
    case True
    with a show ?thesis by simp
  next
    case False
    with q assms(2) show ?thesis by simp
  qed
  with assms(2)
  have "0 < min (interval s) (delta s + (t - lastFrameStart s) - real n * interval s)"
    by simp
  with r show ?thesis by auto
qed

lemma on_event_bounds:
  assumes "0 \<le> delta s" and "0 < interval s" and "slider_in_range e"
  shows "\<exists>s'. on_event e s = Some s' \<and> 0 \<le> delta s' \<and> 0 < interval s'"
proof (cases e)
  case (AnimationFrame t clock)
  with renderLoop_frame_bounds [OF assms(1,2), of t clock] assms(2) show ?thesis
    by auto
next
  case PlayPauseClick
  with assms show ?thesis by (simp add: playPause_click_def)
next
  case (RateInput r)
  with assms(3) have "0 \<le> r" by (simp add: slider_in_range_def)
  then have "0 < 1000 / rateSlider_rate r" by (simp add: rateSlider_rate_pos)
  with RateInput assms(1) show ?thesis by (simp add: rateSlider_input_def)
qed

lemma renderLoop_frame_one_tick:
  assumes "\<not> paused s" and "0 < interval s"
    and "interval s < delta s + (t - lastFrameStart s)"
    and "delta s + (t - lastFrameStart s) \<le> 2 * interval s"
  shows "\<exists>s'. renderLoop_frame t clock s = Some s' \<and> ticks s' = ticks s + 1
           \<and> delta s' = delta s + (t - lastFrameStart s) - interval s
           \<and> lastFrameStart s' = t \<and> paused s' = paused s \<and> interval s' = interval s"
proof -
  have q: "\<not> t - lastFrameStart s < interval s - delta s" using assms(3) by simp
  from renderLoop_frame_run [OF assms(1) q assms(2), of clock]
  obtain n where
    r: "renderLoop_frame t clock s =
             Some (s\<lparr>delta := min (interval s) (delta s + (t - lastFrameStart s) - real n * interval s),
                     lastFrameStart := t,
                     lastFrameTimeStamp := clock 0,
                     frames := record_sample (clock 0 - lastFrameTimeStamp s) (frames s),
                     tickTimes := fold record_sample (map clock [1..<1 + n]) (tickTimes s),
                     ticks := ticks s + n,
                     draws := draws s + 1,
                     lastFrameEnd := clock (1 + n)\<rparr>)"
    and a: "0 < n \<longrightarrow> real n * interval s < delta s + (t - lastFrameStart s)"
    and b: "interval s < delta s + (t - lastFrameStart s) \<longrightarrow> 0 < n"
    by blast
  from b assms(3) have n0: "0 < n" by simp
  with a assms(4) have "real n * interval s < 2 * interval s" by simp
  with assms(2) have "real n < 2" by simp
  with n0 have n: "n = 1" by simp
  have "min (interval s) (delta s + (t - lastFrameStart s) - interval s)
        = delta s + (t - lastFrameStart s) - interval s"
    using assms(4) by simp
  with r n show ?thesis by simp
qed

lemma rateSlider_input_fields:
  "paused (rateSlider_input r s) = paused s" "ticks (rateSlider_input r s) = ticks s"
  "delta (rateSlider_input r s) = delta s"
  by (simp_all add: rateSlider_input_def)

lemma run_append:
  "run (es @ fs) s = (case run es s of None \<Rightarrow> None | Some s' \<Rightarrow> run fs s')"
  by (induction es arbitrary: s) (auto split: option.splits)

lemma frames_every_Suc:
  "frames_every t0 d clocks (Suc n) =
     frames_every t0 d clocks n @ [AnimationFrame (t0 + d * real (Suc n)) (clocks (Suc n))]"
  by (simp add: frames_every_def)

subsection \<open>Skipped frames\<close>

text \<open>
  C2. A frame that arrives while the page is paused, or before the time left of the interval
  has passed, changes nothing: the accumulator, the start of the last frame, both sample
  windows and the count of ticks are what they were. The count of draws is unchanged too:
  the frame is left by \<^verbatim>\<open>continue\<close>, before \<^verbatim>\<open>drawCells()\<close>, so no drawing is requested.
\<close>

theorem skipped_frame_unchanged:
  assumes "paused s \<or> thisFrameStart - lastFrameStart s < interval s - delta s"
  shows "renderLoop_frame thisFrameStart clock s = Some s"
  using assms by (rule renderLoop_frame_skip)

theorem skipped_frame_unchanged_witness:
  "(paused stalled_page \<or> 16 - lastFrameStart stalled_page < interval stalled_page - delta stalled_page)
   \<and> renderLoop_frame 16 (steady_clock 16 1) stalled_page = Some stalled_page"
proof -
  have h: "paused stalled_page \<or> 16 - lastFrameStart stalled_page < interval stalled_page - delta stalled_page"
    by (simp add: stalled_page_def)
  from h skipped_frame_unchanged [OF h] show ?thesis by blast
qed

text \<open>
  A paused page that receives a frame 5000 ms after the last one: the frame returns the
  state it was given and the count of draws stays at 0, where the specification has a
  drawing requested.
\<close>

theorem skipped_frame_request_counterexample:
  "paused paused_page \<and> draws paused_page = 0
   \<and> renderLoop_frame 5000 (steady_clock 5000 1) paused_page = Some paused_page
   \<and> map_option draws (renderLoop_frame 5000 (steady_clock 5000 1) paused_page) = Some 0"
  by (simp add: renderLoop_frame_def paused_page_def stalled_page_def)

text \<open>
  C4. From a paused page, no sequence of animation frames ticks the universe, whatever their
  timestamps, as long as nobody clicks play/pause; the slider may move in between.
\<close>

theorem paused_never_ticks:
  assumes "paused s" and "PlayPauseClick \<notin> set es"
  shows "\<exists>s'. run es s = Some s' \<and> ticks s' = ticks s \<and> paused s'"
  using assms
proof (induction es arbitrary: s)
  case Nil
  then show ?case by simp
next
  case (Cons e es)
  from Cons.prems have rest: "PlayPauseClick \<notin> set es" and e: "e \<noteq> PlayPauseClick"
    by auto
  show ?case
  proof (cases e)
    case (AnimationFrame t clock)
    with Cons.prems have "on_event e s = Some s"
      by (simp add: renderLoop_frame_skip)
    with Cons.IH [OF Cons.prems(1) rest] show ?thesis by simp
  next
    case PlayPauseClick
    with e show ?thesis by simp
  next
    case (RateInput r)
    then have h: "on_event e s = Some (rateSlider_input r s)" by simp
    have "paused (rateSlider_input r s)"
      using Cons.prems(1) by (simp add: rateSlider_input_fields)
    from Cons.IH [OF this rest] h show ?thesis
      by (simp add: rateSlider_input_fields)
  qed
qed

theorem paused_never_ticks_witness:
  "paused paused_page
   \<and> PlayPauseClick \<notin> set [AnimationFrame 5000 (steady_clock 5000 1), RateInput 100,
                             AnimationFrame 900000 (steady_clock 900000 1)]
   \<and> (\<exists>s'. run [AnimationFrame 5000 (steady_clock 5000 1), RateInput 100,
                 AnimationFrame 900000 (steady_clock 900000 1)] paused_page = Some s'
          \<and> ticks s' = ticks paused_page \<and> paused s')"
proof -
  have p: "paused paused_page" by (simp add: paused_page_def)
  have n: "PlayPauseClick \<notin> set [AnimationFrame 5000 (steady_clock 5000 1), RateInput 100,
                             AnimationFrame 900000 (steady_clock 900000 1)]"
    by simp
  from p n paused_never_ticks [OF p n] show ?thesis by blast
qed

subsection \<open>Processed frames\<close>

text \<open>
  In exact arithmetic a frame of a running page that arrives exactly when the time left of
  the interval has passed (\<open>timeDiff = interval - delta\<close>) is processed without a tick: the
  accumulator becomes the interval, which the loop's test does not exceed. The doubles of
  the code do not always agree: see the rounded frame below.
\<close>

lemma tie_frame_processed_without_step:
  assumes "\<not> paused s"
    and "thisFrameStart - lastFrameStart s = interval s - delta s"
  shows "renderLoop_frame thisFrameStart clock s =
           Some (s\<lparr>delta := interval s,
                   lastFrameStart := thisFrameStart,
                   lastFrameTimeStamp := clock 0,
                   frames := record_sample (clock 0 - lastFrameTimeStamp s) (frames s),
                   draws := draws s + 1,
                   lastFrameEnd := clock 1\<rparr>)
         \<and> map_option ticks (renderLoop_frame thisFrameStart clock s) = Some (ticks s)
         \<and> map_option tickTimes (renderLoop_frame thisFrameStart clock s) = Some (tickTimes s)"
proof -
  let ?s3 = "fps_render (clock 0) (s\<lparr>delta := delta s + (thisFrameStart - lastFrameStart s),
                 lastFrameStart := thisFrameStart\<rparr>)"
  have "delta ?s3 = interval ?s3"
    using assms(2) by (simp add: fps_render_def Let_def)
  then have "catchUp clock thisFrameStart (min 100 ((thisFrameStart - lastFrameEnd s) * 4)) 1 ?s3
             = Some (1, ?s3)"
    by (simp add: catchUp_stop)
  then have "renderLoop_frame thisFrameStart clock s =
           Some (s\<lparr>delta := interval s,
                   lastFrameStart := thisFrameStart,
                   lastFrameTimeStamp := clock 0,
                   frames := record_sample (clock 0 - lastFrameTimeStamp s) (frames s),
                   draws := draws s + 1,
                   lastFrameEnd := clock 1\<rparr>)"
    using assms by (simp add: renderLoop_frame_def Let_def) (simp add: fps_render_def Let_def)
  then show ?thesis by simp
qed

text \<open>
  In exact arithmetic, with a positive interval the catch-up loop ends, after \<open>n\<close> ticks
  say, and \<open>n\<close> intervals are at most the debt the loop started from (less than it, when
  \<open>n > 0\<close>). So does a whole frame. With the rounded subtraction of the code the bound can
  be missed by the rounding: see the rounded loop below.
\<close>

lemma catch_up_bounded:
  assumes "0 < interval s"
  shows "(\<exists>n s'. catchUp clock thisFrameStart maxFrameTime k s = Some (k + n, s')
            \<and> ticks s' = ticks s + n
            \<and> (0 < n \<longrightarrow> real n * interval s < delta s)
            \<and> (0 \<le> delta s \<longrightarrow> real n * interval s \<le> delta s))
       \<and> (\<exists>n s'. renderLoop_frame thisFrameStart clock s = Some s'
            \<and> ticks s' = ticks s + n
            \<and> (0 < n \<longrightarrow>
                 real n * interval s < delta s + (thisFrameStart - lastFrameStart s)))"
proof
  from catchUp_result [OF assms, of clock thisFrameStart maxFrameTime k]
  obtain n where
    r: "catchUp clock thisFrameStart maxFrameTime k s =
          Some (k + n, s\<lparr>ticks := ticks s + n, delta := delta s - real n * interval s,
                         tickTimes := fold record_sample (map clock [k..<k + n]) (tickTimes s)\<rparr>)"
    and a: "0 < n \<longrightarrow> real n * interval s < delta s"
    by blast
  have "0 \<le> delta s \<longrightarrow> real n * interval s \<le> delta s"
    using a by (cases "0 < n") auto
  with r a show "\<exists>n s'. catchUp clock thisFrameStart maxFrameTime k s = Some (k + n, s')
            \<and> ticks s' = ticks s + n
            \<and> (0 < n \<longrightarrow> real n * interval s < delta s)
            \<and> (0 \<le> delta s \<longrightarrow> real n * interval s \<le> delta s)"
    by (intro exI [of _ n] exI [of _ "s\<lparr>ticks := ticks s + n, delta := delta s - real n * interval s,
                         tickTimes := fold record_sample (map clock [k..<k + n]) (tickTimes s)\<rparr>"]) simp
next
  show "\<exists>n s'. renderLoop_frame thisFrameStart clock s = Some s'
            \<and> ticks s' = ticks s + n
            \<and> (0 < n \<longrightarrow>
                 real n * interval s < delta s + (thisFrameStart - lastFrameStart s))"
  proof (cases "paused s \<or> thisFrameStart - lastFrameStart s < interval s - delta s")
    case True
    then have "renderLoop_frame thisFrameStart clock s = Some s"
      by (rule renderLoop_frame_skip)
    then show ?thesis by (intro exI [of _ 0] exI [of _ s]) simp
  next
    case False
    then have p: "\<not> paused s"
      and q: "\<not> thisFrameStart - lastFrameStart s < interval s - delta s"
      by auto
    from renderLoop_frame_run [OF p q assms, of clock]
    obtain n s' where "renderLoop_frame thisFrameStart clock s = Some s'"
      and "ticks s' = ticks s + n"
      and "0 < n \<longrightarrow> real n * interval s < delta s + (thisFrameStart - lastFrameStart s)"
      by fastforce
    then show ?thesis by blast
  qed
qed

text \<open>
  C3. From a state with a non-negative accumulator and a positive interval, after any
  sequence of frames, clicks on play/pause and inputs of the slider the accumulator is
  non-negative (and the interval positive); and after a frame that is processed the
  accumulator is at most the interval. Nothing is asked of the timestamps: a frame is
  processed only if \<open>delta + timeDiff\<close> reaches the interval, which is positive.
\<close>

theorem accumulator_bounds:
  assumes "0 \<le> delta s" and "0 < interval s" and "list_all slider_in_range es"
  shows "(\<exists>s'. run es s = Some s' \<and> 0 \<le> delta s' \<and> 0 < interval s')
       \<and> (\<not> paused s \<and> \<not> thisFrameStart - lastFrameStart s < interval s - delta s \<longrightarrow>
            (\<exists>s'. renderLoop_frame thisFrameStart clock s = Some s'
               \<and> 0 \<le> delta s' \<and> delta s' \<le> interval s'))"
proof
  show "\<exists>s'. run es s = Some s' \<and> 0 \<le> delta s' \<and> 0 < interval s'"
    using assms
  proof (induction es arbitrary: s)
    case Nil
    then show ?case by simp
  next
    case (Cons e es)
    from Cons.prems have e: "slider_in_range e" and es: "list_all slider_in_range es"
      by simp_all
    from on_event_bounds [OF Cons.prems(1,2) e]
    obtain s1 where h: "on_event e s = Some s1" and d: "0 \<le> delta s1" and i: "0 < interval s1"
      by blast
    from Cons.IH [OF d i es] h show ?case by simp
  qed
next
  from renderLoop_frame_bounds [OF assms(1,2), of thisFrameStart clock]
  show "\<not> paused s \<and> \<not> thisFrameStart - lastFrameStart s < interval s - delta s \<longrightarrow>
            (\<exists>s'. renderLoop_frame thisFrameStart clock s = Some s'
               \<and> 0 \<le> delta s' \<and> delta s' \<le> interval s')"
    by auto
qed

theorem accumulator_bounds_witness:
  "0 \<le> delta stalled_page \<and> 0 < interval stalled_page \<and> list_all slider_in_range session_events
   \<and> (\<exists>s'. run session_events stalled_page = Some s' \<and> 0 \<le> delta s' \<and> 0 < interval s')
   \<and> \<not> paused stalled_page
   \<and> \<not> 5000 - lastFrameStart stalled_page < interval stalled_page - delta stalled_page
   \<and> (\<exists>s'. renderLoop_frame 5000 (steady_clock 5000 1) stalled_page = Some s'
               \<and> 0 \<le> delta s' \<and> delta s' \<le> interval s')"
proof -
  have h: "0 \<le> delta stalled_page" "0 < interval stalled_page"
    "list_all slider_in_range session_events"
    by (simp_all add: stalled_page_def session_events_def slider_in_range_def)
  have g: "\<not> paused stalled_page"
    "\<not> 5000 - lastFrameStart stalled_page < interval stalled_page - delta stalled_page"
    by (simp_all add: stalled_page_def)
  from accumulator_bounds [OF h, of 5000 "steady_clock 5000 1"] h g show ?thesis by blast
qed

subsection \<open>A frame after a stall\<close>

text \<open>
  C1. A frame of a page running at 1 Hz (interval 1000) that arrives 5000 ms after the last
  processed one, with an accumulator between 0 and 1000, ticks the universe at least once and
  at most five times. It ticks once if and only if the clock reading after the first tick is
  over the frame's budget \<open>min 100 (idleTime * 4)\<close>; from an accumulator of 0 and with the
  readings after the first three ticks within the budget it ticks four times. The clamp
  after the loop leaves an accumulator of at most 1000.
\<close>

theorem stall_steps:
  assumes "\<not> paused s" and "interval s = 1000" and "0 \<le> delta s" and "delta s \<le> 1000"
    and "thisFrameStart = lastFrameStart s + 5000"
  shows "\<exists>n s'. renderLoop_frame thisFrameStart clock s = Some s'
           \<and> ticks s' = ticks s + n \<and> 1 \<le> n \<and> n \<le> 5
           \<and> (n = 1 \<longleftrightarrow>
                min 100 ((thisFrameStart - lastFrameEnd s) * 4) < clock 1 - thisFrameStart)
           \<and> (delta s = 0 \<and> (\<forall>j \<in> {1, 2, 3}.
                  \<not> min 100 ((thisFrameStart - lastFrameEnd s) * 4) < clock j - thisFrameStart)
                \<longrightarrow> n = 4)
           \<and> delta s' \<le> 1000"
proof -
  let ?m = "min 100 ((thisFrameStart - lastFrameEnd s) * 4)"
  have td: "thisFrameStart - lastFrameStart s = 5000" using assms(5) by simp
  have q: "\<not> thisFrameStart - lastFrameStart s < interval s - delta s"
    using assms(2,3) td by simp
  have pos: "0 < interval s" using assms(2) by simp
  from renderLoop_frame_run [OF assms(1) q pos, of clock]
  obtain n where
    r: "renderLoop_frame thisFrameStart clock s =
             Some (s\<lparr>delta := min (interval s) (delta s + (thisFrameStart - lastFrameStart s) - real n * interval s),
                     lastFrameStart := thisFrameStart,
                     lastFrameTimeStamp := clock 0,
                     frames := record_sample (clock 0 - lastFrameTimeStamp s) (frames s),
                     tickTimes := fold record_sample (map clock [1..<1 + n]) (tickTimes s),
                     ticks := ticks s + n,
                     draws := draws s + 1,
                     lastFrameEnd := clock (1 + n)\<rparr>)"
    and a: "0 < n \<longrightarrow> real n * interval s < delta s + (thisFrameStart - lastFrameStart s)"
    and b: "interval s < delta s + (thisFrameStart - lastFrameStart s) \<longrightarrow> 0 < n"
    and c: "delta s + (thisFrameStart - lastFrameStart s) - real n * interval s \<le> interval s
                \<or> (0 < n \<and> ?m < clock n - thisFrameStart)"
    and d: "\<forall>j. j + 1 < n \<longrightarrow> \<not> ?m < clock (1 + j) - thisFrameStart"
    by blast
  have n1: "1 \<le> n" using b assms(2,3) td by simp
  have "real n * 1000 < 6000" using a n1 assms(2,4) td by simp
  then have n5: "n \<le> 5" by simp
  have n4: "n \<le> 4" if "delta s = 0"
  proof -
    have "real n * 1000 < 5000" using a n1 assms(2) td that by simp
    then show ?thesis by simp
  qed
  have one: "n = 1 \<longleftrightarrow> ?m < clock 1 - thisFrameStart"
  proof
    assume "n = 1"
    with c assms(2,3) td show "?m < clock 1 - thisFrameStart" by simp
  next
    assume brk: "?m < clock 1 - thisFrameStart"
    show "n = 1"
    proof (rule ccontr)
      assume "n \<noteq> 1"
      with n1 have "0 + 1 < n" by simp
      with d have "\<not> ?m < clock (1 + 0) - thisFrameStart" by blast
      with brk show False by simp
    qed
  qed
  have four: "n = 4"
    if z: "delta s = 0" and nb: "\<forall>j \<in> {1, 2, 3}. \<not> ?m < clock j - thisFrameStart"
  proof -
    have "n \<noteq> 1 \<and> n \<noteq> 2 \<and> n \<noteq> 3"
      using c nb z assms(2) td by auto
    with n1 n4 [OF z] show ?thesis by simp
  qed
  have cl: "min (interval s) (delta s + (thisFrameStart - lastFrameStart s) - real n * interval s) \<le> 1000"
    using assms(2) by simp
  show ?thesis
    using r n1 n5 one four cl
    by (intro exI [of _ n]) auto
qed

theorem stall_steps_witness:
  "\<not> paused stalled_page \<and> interval stalled_page = 1000 \<and> 0 \<le> delta stalled_page
   \<and> delta stalled_page \<le> 1000 \<and> (5000::real) = lastFrameStart stalled_page + 5000
   \<and> delta stalled_page = 0
   \<and> \<not> min 100 ((5000 - lastFrameEnd stalled_page) * 4) < steady_clock 5000 1 1 - 5000
   \<and> \<not> min 100 ((5000 - lastFrameEnd stalled_page) * 4) < steady_clock 5000 1 2 - 5000
   \<and> \<not> min 100 ((5000 - lastFrameEnd stalled_page) * 4) < steady_clock 5000 1 3 - 5000
   \<and> (\<exists>s'. renderLoop_frame 5000 (steady_clock 5000 1) stalled_page = Some s'
           \<and> ticks s' = ticks stalled_page + 4 \<and> delta s' \<le> 1000)"
proof -
  have h: "\<not> paused stalled_page" "interval stalled_page = 1000" "0 \<le> delta stalled_page"
    "delta stalled_page \<le> 1000" "(5000::real) = lastFrameStart stalled_page + 5000"
    by (simp_all add: stalled_page_def)
  have z: "delta stalled_page = 0" by (simp add: stalled_page_def)
  have c: "\<not> min 100 ((5000 - lastFrameEnd stalled_page) * 4) < steady_clock 5000 1 1 - 5000"
    "\<not> min 100 ((5000 - lastFrameEnd stalled_page) * 4) < steady_clock 5000 1 2 - 5000"
    "\<not> min 100 ((5000 - lastFrameEnd stalled_page) * 4) < steady_clock 5000 1 3 - 5000"
    by (simp_all add: stalled_page_def steady_clock_def)
  from stall_steps [OF h, of "steady_clock 5000 1"] z c
  have "\<exists>s'. renderLoop_frame 5000 (steady_clock 5000 1) stalled_page = Some s'
           \<and> ticks s' = ticks stalled_page + 4 \<and> delta s' \<le> 1000"
    by auto
  with h z c show ?thesis by blast
qed

text \<open>
  The page at 1 Hz with no debt, a frame 5000 ms after the last one, clock readings 1 ms
  apart: four ticks, not one, and the accumulator ends at 1000.
\<close>

theorem stall_single_step_counterexample:
  "\<not> paused stalled_page \<and> interval stalled_page = 1000 \<and> delta stalled_page = 0
   \<and> 5000 - lastFrameStart stalled_page = 5000
   \<and> map_option ticks (renderLoop_frame 5000 (steady_clock 5000 1) stalled_page) = Some 4
   \<and> map_option delta (renderLoop_frame 5000 (steady_clock 5000 1) stalled_page) = Some 1000"
  by (simp add: renderLoop_frame_def fps_render_def stalled_page_def steady_clock_def
      catchUp_again catchUp_stop Let_def)

text \<open>
  With clock readings 150 ms apart the first tick is over the budget of 100 ms and is the
  only one; the 3000 ms of debt over one interval are dropped by the clamp.
\<close>

lemma stall_slow_clock_one_step:
  "map_option ticks (renderLoop_frame 5000 (steady_clock 5000 150) stalled_page) = Some 1
   \<and> map_option delta (renderLoop_frame 5000 (steady_clock 5000 150) stalled_page) = Some 1000"
  by (simp add: renderLoop_frame_def fps_render_def stalled_page_def steady_clock_def
      catchUp_break Let_def)

subsection \<open>Frames at 60 Hz, ticks at 30 Hz\<close>

text \<open>
  The state after the first \<open>j \<le> 500\<close> frames that come every 16.7 ms to a page running at
  30 Hz: every second frame was processed, ticked once and left 1/15 ms more in the
  accumulator (two frames are 33.4 ms, the interval is 33.33 ms).
\<close>

lemma alternation_state:
  assumes "\<not> paused s" and "interval s = 1000 / 30" and "delta s = 0"
    and "j \<le> 500"
  shows "\<exists>s'. run (frames_every (lastFrameStart s) (167 / 10) clocks j) s = Some s'
           \<and> \<not> paused s' \<and> interval s' = 1000 / 30
           \<and> delta s' = real (j div 2) / 15
           \<and> lastFrameStart s' = lastFrameStart s + 167 / 5 * real (j div 2)
           \<and> ticks s' = ticks s + j div 2"
  using assms(4)
proof (induction j)
  case 0
  with assms show ?case by (simp add: frames_every_def)
next
  case (Suc j)
  then have "j \<le> 500" by simp
  with Suc.IH obtain s1 where
    r: "run (frames_every (lastFrameStart s) (167 / 10) clocks j) s = Some s1"
    and p: "\<not> paused s1" and i: "interval s1 = 1000 / 30"
    and d: "delta s1 = real (j div 2) / 15"
    and l: "lastFrameStart s1 = lastFrameStart s + 167 / 5 * real (j div 2)"
    and k: "ticks s1 = ticks s + j div 2"
    by blast
  define t where "t = lastFrameStart s + 167 / 10 * real (Suc j)"
  have run_eq: "run (frames_every (lastFrameStart s) (167 / 10) clocks (Suc j)) s
        = renderLoop_frame t (clocks (Suc j)) s1"
    by (simp add: frames_every_Suc run_append r t_def split: option.splits)
  show ?case
  proof (cases "even j")
    case True
    then obtain n where j: "j = 2 * n" by (auto elim: evenE)
    with Suc.prems have "n \<le> 249" by simp
    then have rn: "real n \<le> 249" by simp
    have half: "j div 2 = n" "Suc j div 2 = n" using j by simp_all
    have td: "t - lastFrameStart s1 = 167 / 10"
      using l j by (simp add: t_def field_simps)
    have "(167 / 10 :: real) < 1000 / 30 - real n / 15" using rn by simp
    then have "t - lastFrameStart s1 < interval s1 - delta s1"
      by (simp only: td i d half)
    then have "renderLoop_frame t (clocks (Suc j)) s1 = Some s1"
      by (simp add: renderLoop_frame_skip)
    with run_eq p i d l k show ?thesis by (simp only: half) simp
  next
    case False
    then obtain n where j: "j = 2 * n + 1" by (auto elim: oddE)
    with Suc.prems have "n \<le> 249" by simp
    then have rn: "real n \<le> 249" by simp
    have half: "j div 2 = n" "Suc j div 2 = Suc n" using j by simp_all
    have td: "t - lastFrameStart s1 = 167 / 5"
      using l j by (simp add: t_def field_simps)
    have t': "t = lastFrameStart s + 167 / 5 * real (Suc n)"
      using j by (simp add: t_def field_simps)
    have pos: "0 < interval s1" using i by simp
    have "(1000 / 30 :: real) < real n / 15 + 167 / 5" by simp
    then have lo: "interval s1 < delta s1 + (t - lastFrameStart s1)"
      by (simp only: td i d half)
    have "real n / 15 + 167 / 5 \<le> 2 * (1000 / 30)" using rn by simp
    then have hi: "delta s1 + (t - lastFrameStart s1) \<le> 2 * interval s1"
      by (simp only: td i d half)
    from renderLoop_frame_one_tick [OF p pos lo hi, of "clocks (Suc j)"]
    obtain s2 where r2: "renderLoop_frame t (clocks (Suc j)) s1 = Some s2"
      and k2: "ticks s2 = ticks s1 + 1"
      and d2: "delta s2 = delta s1 + (t - lastFrameStart s1) - interval s1"
      and l2: "lastFrameStart s2 = t" and p2: "paused s2 = paused s1"
      and i2: "interval s2 = interval s1"
      by blast
    have "real n / 15 + 167 / 5 - 1000 / 30 = real (Suc n) / 15" by simp
    with d2 have d2': "delta s2 = real (Suc n) / 15" by (simp only: td i d half)
    from k2 k have k2': "ticks s2 = ticks s + Suc n" by (simp add: half)
    from run_eq r2 p2 p i2 i d2' l2 t' k2' show ?thesis
      by (simp only: half) simp
  qed
qed

text \<open>
  C7. At 30 Hz (interval \<open>1000 / 30\<close>), with frames every 16.7 ms from an accumulator of 0,
  the first 500 frames alternate: after \<open>j \<le> 500\<close> frames the universe was ticked
  \<open>j div 2\<close> times, that is once by every even frame and not by the odd ones.
\<close>

theorem alternation_first_500:
  assumes "\<not> paused s" and "interval s = 1000 / 30" and "delta s = 0" and "j \<le> 500"
  shows "map_option ticks (run (frames_every (lastFrameStart s) (167 / 10) clocks j) s)
           = Some (ticks s + j div 2)"
  using alternation_state [OF assms, of clocks] by auto

theorem alternation_first_500_witness:
  "\<not> paused page_30Hz \<and> interval page_30Hz = 1000 / 30 \<and> delta page_30Hz = 0
   \<and> (7::nat) \<le> 500
   \<and> map_option ticks
         (run (frames_every (lastFrameStart page_30Hz) (167 / 10) (steady_clocks 0 (167 / 10) 1) 7)
            page_30Hz) = Some 3"
proof -
  have h: "\<not> paused page_30Hz" "interval page_30Hz = 1000 / 30" "delta page_30Hz = 0"
    "(7::nat) \<le> 500"
    by (simp_all add: page_30Hz_def stalled_page_def)
  have k: "ticks page_30Hz = 0" by (simp add: page_30Hz_def stalled_page_def)
  from alternation_first_500 [OF h, of "steady_clocks 0 (167 / 10) 1"] h k show ?thesis
    by simp
qed

text \<open>
  The alternation does not go on: the accumulator has grown to 50/3 ms after 500 frames, so
  the frame 501 is processed and ticks, right after the frame 500 did.
\<close>

theorem alternation_breaks_counterexample:
  "\<not> paused page_30Hz \<and> interval page_30Hz = 1000 / 30 \<and> delta page_30Hz = 0
   \<and> lastFrameStart page_30Hz = 0
   \<and> map_option ticks
         (run (frames_every 0 (167 / 10) (steady_clocks 0 (167 / 10) 1) 499) page_30Hz) = Some 249
   \<and> map_option ticks
         (run (frames_every 0 (167 / 10) (steady_clocks 0 (167 / 10) 1) 500) page_30Hz) = Some 250
   \<and> map_option ticks
         (run (frames_every 0 (167 / 10) (steady_clocks 0 (167 / 10) 1) 501) page_30Hz) = Some 251"
proof -
  let ?c = "steady_clocks 0 (167 / 10) 1"
  have p: "\<not> paused page_30Hz" and i: "interval page_30Hz = 1000 / 30"
    and d: "delta page_30Hz = 0" and l: "lastFrameStart page_30Hz = 0"
    and k: "ticks page_30Hz = 0"
    by (simp_all add: page_30Hz_def stalled_page_def)
  have a: "map_option ticks (run (frames_every 0 (167 / 10) ?c 499) page_30Hz) = Some 249"
    using alternation_state [OF p i d, of 499 ?c] by (auto simp: l k)
  from alternation_state [OF p i d, of 500 ?c]
  obtain s1 where r: "run (frames_every 0 (167 / 10) ?c 500) page_30Hz = Some s1"
    and p1: "\<not> paused s1" and i1: "interval s1 = 1000 / 30"
    and d1: "delta s1 = 50 / 3" and l1: "lastFrameStart s1 = 8350" and k1: "ticks s1 = 250"
    by (auto simp: l k)
  from r k1 have b: "map_option ticks (run (frames_every 0 (167 / 10) ?c 500) page_30Hz) = Some 250"
    by simp
  have pos: "0 < interval s1" using i1 by simp
  have lo: "interval s1 < delta s1 + (83667 / 10 - lastFrameStart s1)"
    by (simp add: i1 d1 l1)
  have hi: "delta s1 + (83667 / 10 - lastFrameStart s1) \<le> 2 * interval s1"
    by (simp add: i1 d1 l1)
  have fe: "frames_every 0 (167 / 10) ?c 501 =
              frames_every 0 (167 / 10) ?c 500 @ [AnimationFrame (83667 / 10) (?c 501)]"
    using frames_every_Suc [of 0 "167 / 10" ?c 500] by simp
  from renderLoop_frame_one_tick [OF p1 pos lo hi, of "?c 501"]
  obtain s2 where "renderLoop_frame (83667 / 10) (?c 501) s1 = Some s2"
    and "ticks s2 = ticks s1 + 1" by blast
  then have "run (frames_every 0 (167 / 10) ?c 501) page_30Hz = Some s2"
    and "ticks s2 = 251"
    using r k1 by (simp_all add: fe run_append)
  then have c: "map_option ticks (run (frames_every 0 (167 / 10) ?c 501) page_30Hz) = Some 251"
    by simp
  from p i d l a b c show ?thesis by blast
qed

subsection \<open>The revision before\<close>

text \<open>
  The loop of the revision before ends too, with the same bound on its ticks; its budget is
  5 ms.
\<close>

lemma catchUp_prev_stop:
  "\<not> delta s > interval s \<Longrightarrow> catchUp_prev clock t k s = Some (k, s)"
  by (subst catchUp_prev.simps) simp

lemma catchUp_prev_break:
  "delta s > interval s \<Longrightarrow> clock k - t > 5 \<Longrightarrow>
   catchUp_prev clock t k s =
     Some (k + 1, s\<lparr>ticks := ticks s + 1, delta := delta s - interval s\<rparr>)"
  by (subst catchUp_prev.simps) (simp add: Let_def)

lemma catchUp_prev_again:
  "delta s > interval s \<Longrightarrow> \<not> clock k - t > 5 \<Longrightarrow>
   catchUp_prev clock t k s =
     catchUp_prev clock t (k + 1) (s\<lparr>ticks := ticks s + 1, delta := delta s - interval s\<rparr>)"
  by (subst catchUp_prev.simps) (simp add: Let_def)

lemma catchUp_prev_result:
  assumes "0 < interval s"
  shows "\<exists>n. catchUp_prev clock t k s =
             Some (k + n, s\<lparr>ticks := ticks s + n, delta := delta s - real n * interval s\<rparr>)
           \<and> (0 < n \<longrightarrow> real n * interval s < delta s)
           \<and> (interval s < delta s \<longrightarrow> 0 < n)
           \<and> (delta s - real n * interval s \<le> interval s \<or> (0 < n \<and> 5 < clock (k + n - 1) - t))
           \<and> (\<forall>j. j + 1 < n \<longrightarrow> \<not> 5 < clock (k + j) - t)"
  using assms
proof (induction "nat \<lfloor>delta s / interval s\<rfloor>" arbitrary: s k rule: less_induct)
  case less
  show ?case
  proof (cases "interval s < delta s")
    case False
    then have "catchUp_prev clock t k s = Some (k, s)" by (simp add: catchUp_prev_stop)
    with False show ?thesis by (intro exI [of _ 0]) simp
  next
    case True
    let ?s' = "s\<lparr>ticks := ticks s + 1, delta := delta s - interval s\<rparr>"
    show ?thesis
    proof (cases "5 < clock k - t")
      case brk: True
      with True have "catchUp_prev clock t k s = Some (k + 1, ?s')"
        by (simp add: catchUp_prev_break)
      with True brk show ?thesis by (intro exI [of _ 1]) simp
    next
      case go: False
      have eq: "catchUp_prev clock t k s = catchUp_prev clock t (k + 1) ?s'"
        using True go by (simp add: catchUp_prev_again)
      have pos: "0 < interval s" by fact
      have dec: "nat \<lfloor>delta ?s' / interval ?s'\<rfloor> < nat \<lfloor>delta s / interval s\<rfloor>"
        using floor_debt_less [OF pos True] by simp
      from less.hyps [OF dec, of "k + 1"] pos
      obtain n where
        r: "catchUp_prev clock t (k + 1) ?s' =
             Some (k + 1 + n, ?s'\<lparr>ticks := ticks ?s' + n, delta := delta ?s' - real n * interval ?s'\<rparr>)"
        and a: "0 < n \<longrightarrow> real n * interval ?s' < delta ?s'"
        and c: "delta ?s' - real n * interval ?s' \<le> interval ?s' \<or> (0 < n \<and> 5 < clock (k + 1 + n - 1) - t)"
        and d: "\<forall>j. j + 1 < n \<longrightarrow> \<not> 5 < clock (k + 1 + j) - t"
        by auto
      have 1: "catchUp_prev clock t k s =
             Some (k + Suc n, s\<lparr>ticks := ticks s + Suc n, delta := delta s - real (Suc n) * interval s\<rparr>)"
        unfolding eq r by (simp add: algebra_simps)
      have 2: "real (Suc n) * interval s < delta s"
        using a True by (cases n) (simp_all add: algebra_simps)
      have 3: "delta s - real (Suc n) * interval s \<le> interval s \<or> 5 < clock (k + Suc n - 1) - t"
        using c go by (cases n) (auto simp: algebra_simps)
      have 4: "\<forall>j. j + 1 < Suc n \<longrightarrow> \<not> 5 < clock (k + j) - t"
      proof (intro allI impI)
        fix j assume "j + 1 < Suc n"
        then show "\<not> 5 < clock (k + j) - t"
          using d go by (cases j) auto
      qed
      from 1 2 3 4 show ?thesis by (intro exI [of _ "Suc n"]) simp
    qed
  qed
qed

lemma renderLoop_frame_prev_skip:
  "paused s \<or> t - lastFrameStart s < interval s - delta s \<Longrightarrow>
   renderLoop_frame_prev t clock s = Some s"
  by (simp add: renderLoop_frame_prev_def)

lemma renderLoop_frame_prev_run:
  assumes "\<not> paused s" and "\<not> t - lastFrameStart s < interval s - delta s"
    and "0 < interval s"
  shows "\<exists>n. renderLoop_frame_prev t clock s =
             Some (s\<lparr>delta := min (interval s) (delta s + (t - lastFrameStart s) - real n * interval s),
                     lastFrameStart := t,
                     lastFrameTimeStamp := clock 0,
                     frames := record_sample (clock 0 - lastFrameTimeStamp s) (frames s),
                     ticks := ticks s + n,
                     draws := draws s + 1\<rparr>)
           \<and> (0 < n \<longrightarrow> real n * interval s < delta s + (t - lastFrameStart s))
           \<and> (interval s < delta s + (t - lastFrameStart s) \<longrightarrow> 0 < n)
           \<and> (delta s + (t - lastFrameStart s) - real n * interval s \<le> interval s
                \<or> (0 < n \<and> 5 < clock n - t))
           \<and> (\<forall>j. j + 1 < n \<longrightarrow> \<not> 5 < clock (1 + j) - t)"
proof -
  let ?s3 = "(fps_render (clock 0) s)\<lparr>delta := delta s + (t - lastFrameStart s), lastFrameStart := t\<rparr>"
  have i3: "interval ?s3 = interval s" and d3: "delta ?s3 = delta s + (t - lastFrameStart s)"
    by (simp_all add: fps_render_def Let_def)
  from assms(3) i3 have "0 < interval ?s3" by simp
  from catchUp_prev_result [OF this, of clock t 1]
  obtain n where
    r: "catchUp_prev clock t 1 ?s3 =
          Some (1 + n, ?s3\<lparr>ticks := ticks ?s3 + n, delta := delta ?s3 - real n * interval ?s3\<rparr>)"
    and a: "0 < n \<longrightarrow> real n * interval ?s3 < delta ?s3"
    and b: "interval ?s3 < delta ?s3 \<longrightarrow> 0 < n"
    and c: "delta ?s3 - real n * interval ?s3 \<le> interval ?s3 \<or> (0 < n \<and> 5 < clock (1 + n - 1) - t)"
    and d: "\<forall>j. j + 1 < n \<longrightarrow> \<not> 5 < clock (1 + j) - t"
    by blast
  have "renderLoop_frame_prev t clock s =
             Some (s\<lparr>delta := min (interval s) (delta s + (t - lastFrameStart s) - real n * interval s),
                     lastFrameStart := t,
                     lastFrameTimeStamp := clock 0,
                     frames := record_sample (clock 0 - lastFrameTimeStamp s) (frames s),
                     ticks := ticks s + n,
                     draws := draws s + 1\<rparr>)"
    using assms(1,2) r
    by (simp add: renderLoop_frame_prev_def Let_def fps_render_def)
  with a b c d show ?thesis
    unfolding i3 d3 by (intro exI [of _ n]) simp
qed

text \<open>
  A frame on the exact boundary is processed without a tick, a frame ends with a
  non-negative accumulator, at most the interval if the frame was processed, and the frame
  after the stall of 5000 ms ticks four times there as well.
\<close>

lemma prev_tie_frame:
  assumes "\<not> paused s" and "t - lastFrameStart s = interval s - delta s"
  shows "renderLoop_frame_prev t clock s =
           Some (s\<lparr>delta := interval s,
                   lastFrameStart := t,
                   lastFrameTimeStamp := clock 0,
                   frames := record_sample (clock 0 - lastFrameTimeStamp s) (frames s),
                   draws := draws s + 1\<rparr>)"
proof -
  let ?s3 = "(fps_render (clock 0) s)\<lparr>delta := delta s + (t - lastFrameStart s), lastFrameStart := t\<rparr>"
  have "delta ?s3 = interval ?s3"
    using assms(2) by (simp add: fps_render_def Let_def)
  then have "catchUp_prev clock t 1 ?s3 = Some (1, ?s3)"
    by (simp add: catchUp_prev_stop)
  then show ?thesis
    using assms by (simp add: renderLoop_frame_prev_def Let_def fps_render_def)
qed

lemma prev_frame_bounds:
  assumes "0 < interval s"
  shows "\<exists>n s'. renderLoop_frame_prev t clock s = Some s' \<and> ticks s' = ticks s + n
           \<and> (0 < n \<longrightarrow> real n * interval s < delta s + (t - lastFrameStart s))
           \<and> (0 \<le> delta s \<longrightarrow> 0 \<le> delta s')
           \<and> (\<not> paused s \<and> \<not> t - lastFrameStart s < interval s - delta s \<longrightarrow>
                 0 < delta s' \<and> delta s' \<le> interval s')"
proof (cases "paused s \<or> t - lastFrameStart s < interval s - delta s")
  case True
  then have "renderLoop_frame_prev t clock s = Some s" by (rule renderLoop_frame_prev_skip)
  with True show ?thesis by (intro exI [of _ 0] exI [of _ s]) auto
next
  case False
  then have p: "\<not> paused s" and q: "\<not> t - lastFrameStart s < interval s - delta s"
    by auto
  from renderLoop_frame_prev_run [OF p q assms, of clock]
  obtain n where
    r: "renderLoop_frame_prev t clock s =
             Some (s\<lparr>delta := min (interval s) (delta s + (t - lastFrameStart s) - real n * interval s),
                     lastFrameStart := t,
                     lastFrameTimeStamp := clock 0,
                     frames := record_sample (clock 0 - lastFrameTimeStamp s) (frames s),
                     ticks := ticks s + n,
                     draws := draws s + 1\<rparr>)"
    and a: "0 < n \<longrightarrow> real n * interval s < delta s + (t - lastFrameStart s)"
    by blast
  have "0 < delta s + (t - lastFrameStart s) - real n * interval s"
  proof (cases "0 < n")
    case True
    with a show ?thesis by simp
  next
    case False
    with q assms show ?thesis by simp
  qed
  with assms
  have "0 < min (interval s) (delta s + (t - lastFrameStart s) - real n * interval s)"
    by simp
  with r a show ?thesis
    by (intro exI [of _ n]) auto
qed

lemma prev_stall_four_steps:
  "map_option ticks (renderLoop_frame_prev 5000 (steady_clock 5000 1) stalled_page) = Some 4"
  by (simp add: renderLoop_frame_prev_def fps_render_def stalled_page_def steady_clock_def
      catchUp_prev_again catchUp_prev_stop Let_def)

section \<open>Properties in double arithmetic\<close>

subsection \<open>Rounding\<close>

text \<open>
  Rounding moves a positive number up by at most the relative error \<open>unit_roundoff\<close>, and
  keeps the sign.
\<close>

lemma round_even_le: "real_of_int (round_even m) \<le> m + 1 / 2"
  unfolding round_even_def Let_def by simp linarith

lemma round_even_nonneg: "0 \<le> m \<Longrightarrow> 0 \<le> round_even m"
  unfolding round_even_def Let_def by simp

lemma expo_le:
  assumes "x \<noteq> 0"
  shows "2 powi (expo x) \<le> \<bar>x\<bar>"
proof (cases "1 \<le> \<bar>x\<bar>")
  case True
  let ?n = "\<lfloor>\<bar>x\<bar>\<rfloor>"
  from True have n: "0 < ?n" by linarith
  then have b: "1 \<le> bitlen ?n" by (simp add: bitlen_alt_def)
  from bitlen_bounds [OF n] have "2 ^ nat (bitlen ?n - 1) \<le> ?n" by simp
  then have "real_of_int (2 ^ nat (bitlen ?n - 1)) \<le> real_of_int ?n"
    by (simp only: of_int_le_iff)
  also have "\<dots> \<le> \<bar>x\<bar>" by simp
  finally have "2 ^ nat (bitlen ?n - 1) \<le> \<bar>x\<bar>" by simp
  with True b show ?thesis by (simp add: expo_def power_int_def)
next
  case False
  with assms have lt: "0 < \<bar>x\<bar>" "\<bar>x\<bar> < 1" by simp_all
  let ?n = "\<lfloor>1 / \<bar>x\<bar>\<rfloor>"
  from lt have "1 < 1 / \<bar>x\<bar>" by simp
  then have n: "0 < ?n" by linarith
  from bitlen_bounds [OF n] have "?n < 2 ^ nat (bitlen ?n)" by simp
  then have "1 / \<bar>x\<bar> < real_of_int (2 ^ nat (bitlen ?n))"
    by (simp only: floor_less_iff)
  then have "1 / \<bar>x\<bar> < 2 ^ nat (bitlen ?n)" by simp
  with lt have "1 / 2 ^ nat (bitlen ?n) \<le> \<bar>x\<bar>"
    by (simp add: field_simps)
  moreover have "1 \<le> bitlen ?n" using n by (simp add: bitlen_alt_def)
  ultimately show ?thesis
    using False by (simp add: expo_def power_int_def field_simps)
qed

lemma expo_upper:
  assumes "x \<noteq> 0"
  shows "\<bar>x\<bar> \<le> 2 powi (expo x + 1)"
proof (cases "1 \<le> \<bar>x\<bar>")
  case True
  let ?n = "\<lfloor>\<bar>x\<bar>\<rfloor>"
  from True have n: "0 < ?n" by linarith
  then have b: "1 \<le> bitlen ?n" by (simp add: bitlen_alt_def)
  from bitlen_bounds [OF n] have "?n + 1 \<le> 2 ^ nat (bitlen ?n)" by simp
  then have "real_of_int (?n + 1) \<le> real_of_int (2 ^ nat (bitlen ?n))"
    by (simp only: of_int_le_iff)
  then have 1: "real_of_int ?n + 1 \<le> 2 ^ nat (bitlen ?n)" by simp
  have 2: "\<bar>x\<bar> \<le> real_of_int ?n + 1" by linarith
  from 1 2 have "\<bar>x\<bar> \<le> 2 ^ nat (bitlen ?n)" by linarith
  with True b show ?thesis by (simp add: expo_def power_int_def)
next
  case False
  with assms have lt: "0 < \<bar>x\<bar>" "\<bar>x\<bar> < 1" by simp_all
  let ?n = "\<lfloor>1 / \<bar>x\<bar>\<rfloor>"
  from lt have "1 < 1 / \<bar>x\<bar>" by simp
  then have n: "0 < ?n" by linarith
  then have b: "1 \<le> bitlen ?n" by (simp add: bitlen_alt_def)
  from bitlen_bounds [OF n] have "2 ^ nat (bitlen ?n - 1) \<le> ?n" by simp
  then have "real_of_int (2 ^ nat (bitlen ?n - 1)) \<le> real_of_int ?n"
    by (simp only: of_int_le_iff)
  also have "\<dots> \<le> 1 / \<bar>x\<bar>" by simp
  finally have "2 ^ nat (bitlen ?n - 1) \<le> 1 / \<bar>x\<bar>" by simp
  with lt have le: "\<bar>x\<bar> \<le> 1 / 2 ^ nat (bitlen ?n - 1)"
    by (simp add: field_simps)
  show ?thesis
  proof (cases "bitlen ?n = 1")
    case True
    with le False show ?thesis by (simp add: expo_def)
  next
    case ne: False
    with b have "1 < bitlen ?n" by simp
    then have "(2::real) powi (- bitlen ?n + 1) = 1 / 2 ^ nat (bitlen ?n - 1)"
      by (simp add: power_int_def field_simps nat_diff_distrib)
    with le False show ?thesis by (simp add: expo_def)
  qed
qed

lemma fl_zero: "fl 0 = 0"
  by (simp add: fl_def)

lemma fl_nonneg: "0 \<le> y \<Longrightarrow> 0 \<le> fl y"
  by (simp add: fl_def Let_def round_even_nonneg)

lemma fl_upper:
  assumes "0 < y"
  shows "fl y \<le> y * (1 + unit_roundoff)"
proof -
  define e where "e = expo y - 52"
  define m where "m = y / 2 powi e"
  have p: "(0::real) < 2 powi e" by simp
  have "2 powi (expo y) \<le> y" using expo_le [of y] assms by simp
  moreover have "(2::real) powi (expo y) = 2 powi e * 2 ^ 52"
    by (simp add: e_def power_int_diff)
  ultimately have "2 ^ 52 \<le> m"
    using p by (simp add: m_def field_simps)
  then have half: "1 / 2 \<le> m / 2 ^ 53" by simp
  have "fl y = real_of_int (round_even m) * 2 powi e"
    using assms by (simp add: fl_def Let_def e_def m_def)
  also have "\<dots> \<le> (m + 1 / 2) * 2 powi e"
    using round_even_le [of m] p by (simp only: mult_le_cancel_right_pos)
  also have "\<dots> \<le> (m + m / 2 ^ 53) * 2 powi e"
    using half p by (simp only: mult_le_cancel_right_pos add_le_cancel_left)
  also have "\<dots> = y * (1 + unit_roundoff)"
    using p by (simp add: m_def unit_roundoff_def field_simps)
  finally show ?thesis .
qed

lemma fl_upper0: "0 \<le> y \<Longrightarrow> fl y \<le> y * (1 + unit_roundoff)"
  using fl_upper [of y] by (cases "y = 0") (simp_all add: fl_zero)

lemma roundoff_cube: "(1 + unit_roundoff) ^ 3 - (1 + unit_roundoff) \<le> 1"
proof -
  have lo: "1 \<le> 1 + unit_roundoff" and hi: "1 + unit_roundoff \<le> 5 / 4"
    by (simp_all add: unit_roundoff_def)
  have "(1 + unit_roundoff) ^ 3 \<le> (5 / 4) ^ 3"
    using hi lo by (intro power_mono) simp_all
  also have "\<dots> = (125 / 64 :: real)" by (simp add: power3_eq_cube)
  finally show ?thesis using lo by simp
qed

subsection \<open>The catch-up loop\<close>

lemma debt_shift: "debt (fl (d - i)) i n = debt d i (Suc n)"
  by (induction n) simp_all

lemma catchUp_fl_stop:
  "\<not> delta s > interval s \<Longrightarrow> catchUp_fl clock t m k s = Some (k, s)"
  by (subst catchUp_fl.simps) simp

lemma catchUp_fl_break:
  "delta s > interval s \<Longrightarrow> fl (clock k - t) > m \<Longrightarrow>
   catchUp_fl clock t m k s =
     Some (k + 1, s\<lparr>ticks := ticks s + 1, delta := fl (delta s - interval s),
                    tickTimes := record_sample (clock k) (tickTimes s)\<rparr>)"
  by (subst catchUp_fl.simps) (simp add: Let_def)

lemma catchUp_fl_again:
  "delta s > interval s \<Longrightarrow> \<not> fl (clock k - t) > m \<Longrightarrow>
   catchUp_fl clock t m k s =
     catchUp_fl clock t m (k + 1)
       (s\<lparr>ticks := ticks s + 1, delta := fl (delta s - interval s),
          tickTimes := record_sample (clock k) (tickTimes s)\<rparr>)"
  by (subst catchUp_fl.simps) (simp add: Let_def)

lemma catchUp_fl_unroll:
  assumes "\<And>j. j < n \<Longrightarrow> interval s < debt (delta s) (interval s) j"
    and "\<And>j. j + 1 < n \<Longrightarrow> \<not> m < fl (clock (k + j) - t)"
    and "\<not> interval s < debt (delta s) (interval s) n \<or> (0 < n \<and> m < fl (clock (k + n - 1) - t))"
  shows "catchUp_fl clock t m k s =
           Some (k + n, s\<lparr>ticks := ticks s + n, delta := debt (delta s) (interval s) n,
                          tickTimes := fold record_sample (map clock [k..<k + n]) (tickTimes s)\<rparr>)"
  using assms
proof (induction n arbitrary: s k)
  case 0
  then have "\<not> interval s < delta s" by simp
  then show ?case by (simp add: catchUp_fl_stop)
next
  case (Suc n)
  let ?s' = "s\<lparr>ticks := ticks s + 1, delta := fl (delta s - interval s),
               tickTimes := record_sample (clock k) (tickTimes s)\<rparr>"
  from Suc.prems(1) [of 0] have gt: "interval s < delta s" by simp
  have up: "[k..<k + Suc n] = k # [k + 1..<k + 1 + n]"
    by (simp add: upt_conv_Cons)
  show ?case
  proof (cases "m < fl (clock k - t)")
    case True
    have "n = 0"
    proof (rule ccontr)
      assume "n \<noteq> 0"
      then have "0 + 1 < Suc n" by simp
      from Suc.prems(2) [OF this] True show False by simp
    qed
    with gt True show ?thesis by (simp add: catchUp_fl_break)
  next
    case False
    have eq: "catchUp_fl clock t m k s = catchUp_fl clock t m (k + 1) ?s'"
      using gt False by (simp add: catchUp_fl_again)
    have 1: "\<And>j. j < n \<Longrightarrow> interval ?s' < debt (delta ?s') (interval ?s') j"
      using Suc.prems(1) by (simp add: debt_shift del: debt.simps)
    have 2: "\<And>j. j + 1 < n \<Longrightarrow> \<not> m < fl (clock (k + 1 + j) - t)"
      using Suc.prems(2) by (metis add.assoc add.commute add_less_cancel_right plus_1_eq_Suc)
    have 3: "\<not> interval ?s' < debt (delta ?s') (interval ?s') n
             \<or> (0 < n \<and> m < fl (clock (k + 1 + n - 1) - t))"
    proof (cases "n = 0")
      case True
      with Suc.prems(3) False show ?thesis by simp
    next
      case False
      with Suc.prems(3) show ?thesis by (simp add: debt_shift del: debt.simps)
    qed
    have "catchUp_fl clock t m (k + 1) ?s' =
           Some (k + 1 + n, ?s'\<lparr>ticks := ticks ?s' + n, delta := debt (delta ?s') (interval ?s') n,
                          tickTimes := fold record_sample (map clock [k + 1..<k + 1 + n]) (tickTimes ?s')\<rparr>)"
      by (rule Suc.IH [OF 1 2 3])
    then show ?thesis
      unfolding eq up by (simp add: debt_shift del: debt.simps)
  qed
qed

text \<open>
  While the debt is at most \<open>2 ^ 52\<close> intervals, one pass takes at least half an interval
  off it, so the debt comes down to the interval; and \<open>n\<close> passes are possible only from a
  debt over \<open>n\<close> intervals, up to the rounding of the passes before the last.
\<close>

lemma debt_decrease:
  assumes "0 < i" and "d \<le> 2 ^ 52 * i" and "\<And>j. j < n \<Longrightarrow> i < debt d i j"
  shows "debt d i n \<le> d - real n * i / 2"
  using assms(3)
proof (induction n)
  case 0
  show ?case by simp
next
  case (Suc n)
  then have IH: "debt d i n \<le> d - real n * i / 2" by simp
  from Suc.prems [of n] have gt: "i < debt d i n" by simp
  then have pos: "0 < debt d i n - i" by simp
  have "0 \<le> real n * i / 2" using assms(1) by simp
  with IH have "debt d i n \<le> d" by linarith
  with assms(1) have "debt d i n - i \<le> d" by linarith
  then have "(debt d i n - i) * unit_roundoff \<le> d * unit_roundoff"
    by (simp add: unit_roundoff_def)
  also have "\<dots> \<le> i / 2" using assms(2) by (simp add: unit_roundoff_def)
  finally have err: "(debt d i n - i) * unit_roundoff \<le> i / 2" .
  have "debt d i (Suc n) = fl (debt d i n - i)" by simp
  also have "\<dots> \<le> (debt d i n - i) * (1 + unit_roundoff)" by (rule fl_upper [OF pos])
  also have "\<dots> = debt d i n - i + (debt d i n - i) * unit_roundoff"
    by (simp add: algebra_simps)
  also have "\<dots> \<le> debt d i n - i / 2" using err by simp
  also have "\<dots> \<le> d - real (Suc n) * i / 2"
  proof -
    have "real (Suc n) * i / 2 = real n * i / 2 + i / 2" by (simp add: algebra_simps)
    with IH show ?thesis by linarith
  qed
  finally show ?case .
qed

lemma debt_settles:
  assumes "0 < i" and "d \<le> 2 ^ 52 * i"
  shows "\<exists>n. \<not> i < debt d i n"
proof (rule ccontr)
  assume "\<nexists>n. \<not> i < debt d i n"
  then have all: "\<And>j. i < debt d i j" by blast
  define n where "n = nat \<lceil>2 * d / i\<rceil>"
  have "debt d i n \<le> d - real n * i / 2"
    by (rule debt_decrease [OF assms]) (rule all)
  moreover have "2 * d / i \<le> real n" unfolding n_def by linarith
  then have "d \<le> real n * i / 2" using assms(1) by (simp add: field_simps)
  ultimately have "debt d i n \<le> 0" by simp
  with all [of n] assms(1) show False by simp
qed

lemma debt_bound:
  assumes "0 < i" and "\<And>j. j < Suc n \<Longrightarrow> i < debt d i j"
  shows "real (Suc n) * i < d * (1 + unit_roundoff) ^ n"
  using assms(2)
proof (induction n arbitrary: d)
  case 0
  from 0 [of 0] show ?case by simp
next
  case (Suc n)
  define u where "u = 1 + unit_roundoff"
  have u1: "1 \<le> u" by (simp add: u_def unit_roundoff_def)
  from Suc.prems [of 0] have gt: "i < d" by simp
  have "\<And>j. j < Suc n \<Longrightarrow> i < debt (fl (d - i)) i j"
    using Suc.prems by (simp add: debt_shift del: debt.simps)
  then have "real (Suc n) * i < fl (d - i) * u ^ n" unfolding u_def by (rule Suc.IH)
  also have "fl (d - i) * u ^ n \<le> ((d - i) * u) * u ^ n"
    using fl_upper [of "d - i"] gt u1 by (simp add: mult_right_mono u_def)
  also have "\<dots> = d * u ^ Suc n - i * u ^ Suc n" by (simp add: algebra_simps)
  finally have "real (Suc n) * i + i * u ^ Suc n < d * u ^ Suc n" by simp
  moreover have "1 \<le> u ^ Suc n" using u1 by (rule one_le_power)
  then have "i * 1 \<le> i * u ^ Suc n" using assms(1) by (simp only: mult_le_cancel_left_pos)
  ultimately have "real (Suc (Suc n)) * i < d * u ^ Suc n" by (simp add: algebra_simps)
  then show ?case unfolding u_def .
qed

lemma catchUp_fl_result:
  assumes "(0 < interval s \<and> delta s \<le> 2 ^ 52 * interval s)
           \<or> (\<exists>j. m < fl (clock (k + j) - t))"
  shows "\<exists>n. catchUp_fl clock t m k s =
             Some (k + n, s\<lparr>ticks := ticks s + n, delta := debt (delta s) (interval s) n,
                            tickTimes := fold record_sample (map clock [k..<k + n]) (tickTimes s)\<rparr>)
           \<and> (\<forall>j<n. interval s < debt (delta s) (interval s) j)"
proof -
  define P where "P N \<longleftrightarrow> \<not> interval s < debt (delta s) (interval s) N
                    \<or> (0 < N \<and> m < fl (clock (k + N - 1) - t))" for N
  have ex: "\<exists>N. P N"
    using assms
  proof
    assume "0 < interval s \<and> delta s \<le> 2 ^ 52 * interval s"
    then have "\<exists>n. \<not> interval s < debt (delta s) (interval s) n"
      by (intro debt_settles) simp_all
    then show ?thesis unfolding P_def by blast
  next
    assume "\<exists>j. m < fl (clock (k + j) - t)"
    then obtain j where "m < fl (clock (k + j) - t)" ..
    then have "P (Suc j)" unfolding P_def by simp
    then show ?thesis ..
  qed
  define n where "n = (LEAST N. P N)"
  have Pn: "P n" unfolding n_def using ex by (rule LeastI_ex)
  have notP: "\<not> P j" if "j < n" for j
    using that unfolding n_def by (rule not_less_Least)
  have 1: "interval s < debt (delta s) (interval s) j" if "j < n" for j
    using notP [OF that] unfolding P_def by blast
  have 2: "\<not> m < fl (clock (k + j) - t)" if "j + 1 < n" for j
    using notP [OF that] unfolding P_def by simp
  have 3: "\<not> interval s < debt (delta s) (interval s) n
           \<or> (0 < n \<and> m < fl (clock (k + n - 1) - t))"
    using Pn unfolding P_def .
  from catchUp_fl_unroll [of n s m clock k t, OF 1 2 3] 1 show ?thesis by blast
qed

text \<open>
  Some bound on the debt is needed: the subtraction leaves a debt of \<open>2 ^ 54\<close> at interval
  1 as it is, and with a clock that stays within the budget the loop then never ends.
\<close>

lemma absorbed: "fl (2 ^ 54 - 1) = 2 ^ 54"
  by code_simp

lemma catchUp_fl_Some_not_absorbed:
  assumes "catchUp_fl clock t m k s = Some r"
  shows "\<not> (interval s = 1 \<and> delta s = 2 ^ 54 \<and> (\<forall>j. \<not> m < fl (clock j - t)))"
proof (rule catchUp_fl.raw_induct
    [where P = "\<lambda>clock t m k s r.
        \<not> (interval s = 1 \<and> delta s = 2 ^ 54 \<and> (\<forall>j. \<not> m < fl (clock j - t)))",
      OF _ assms])
  fix f :: "(nat \<Rightarrow> real) \<Rightarrow> real \<Rightarrow> real \<Rightarrow> nat \<Rightarrow> page \<Rightarrow> (nat \<times> page) option"
  fix clock t m k s r
  assume IH: "\<And>clock t m k s r. f clock t m k s = Some r \<Longrightarrow>
                \<not> (interval s = 1 \<and> delta s = 2 ^ 54 \<and> (\<forall>j. \<not> m < fl (clock j - t)))"
    and body: "(if interval s < delta s
      then let s1 = s\<lparr>ticks := ticks s + 1\<rparr>;
               s2 = s1\<lparr>delta := fl (delta s1 - interval s1)\<rparr>; now = clock k;
               s3 = s2\<lparr>tickTimes := record_sample now (tickTimes s2)\<rparr>
           in if m < fl (now - t) then Some (k + 1, s3)
              else f clock t m (k + 1) s3
      else Some (k, s)) = Some r"
  show "\<not> (interval s = 1 \<and> delta s = 2 ^ 54 \<and> (\<forall>j. \<not> m < fl (clock j - t)))"
  proof
    assume stuck: "interval s = 1 \<and> delta s = 2 ^ 54 \<and> (\<forall>j. \<not> m < fl (clock j - t))"
    let ?s' = "s\<lparr>ticks := ticks s + 1, delta := fl (delta s - interval s),
                 tickTimes := record_sample (clock k) (tickTimes s)\<rparr>"
    from stuck have "interval s < delta s" and "\<not> m < fl (clock k - t)"
      by simp_all
    with body have "f clock t m (k + 1) ?s' = Some r"
      by (simp add: Let_def)
    from IH [OF this] stuck absorbed show False by simp
  qed
qed

lemma catchUp_fl_absorbs:
  assumes "interval s = 1" and "delta s = 2 ^ 54" and "\<forall>j. \<not> m < fl (clock j - t)"
  shows "catchUp_fl clock t m k s = None"
proof (cases "catchUp_fl clock t m k s")
  case None
  then show ?thesis .
next
  case (Some r)
  from catchUp_fl_Some_not_absorbed [OF this] assms show ?thesis by blast
qed

text \<open>
  C5. With a positive interval the catch-up loop of the code ends, provided the debt at its
  start is at most \<open>2 ^ 52\<close> intervals or some clock reading is over the budget. After its
  \<open>n\<close> ticks, \<open>n\<close> intervals are less than the debt the loop started from times
  \<open>(1 + unit_roundoff) ^ (n - 1)\<close>: the universe is ticked for no more debt than was
  accumulated, up to the rounding of the subtractions.
\<close>

theorem rounded_loop_bounded:
  assumes "0 < interval s"
    and "delta s \<le> 2 ^ 52 * interval s
         \<or> (\<exists>j. maxFrameTime < fl (clock (k + j) - thisFrameStart))"
  shows "\<exists>n s'. catchUp_fl clock thisFrameStart maxFrameTime k s = Some (k + n, s')
           \<and> ticks s' = ticks s + n
           \<and> (0 < n \<longrightarrow> real n * interval s < delta s * (1 + unit_roundoff) ^ (n - 1))"
proof -
  have "(0 < interval s \<and> delta s \<le> 2 ^ 52 * interval s)
        \<or> (\<exists>j. maxFrameTime < fl (clock (k + j) - thisFrameStart))"
    using assms by blast
  from catchUp_fl_result [OF this]
  obtain n where
    r: "catchUp_fl clock thisFrameStart maxFrameTime k s =
          Some (k + n, s\<lparr>ticks := ticks s + n, delta := debt (delta s) (interval s) n,
                         tickTimes := fold record_sample (map clock [k..<k + n]) (tickTimes s)\<rparr>)"
    and a: "\<forall>j<n. interval s < debt (delta s) (interval s) j"
    by blast
  have "real n * interval s < delta s * (1 + unit_roundoff) ^ (n - 1)" if "0 < n"
  proof -
    from that obtain n' where n: "n = Suc n'" by (cases n) simp_all
    have "real (Suc n') * interval s < delta s * (1 + unit_roundoff) ^ n'"
      using a by (intro debt_bound [OF assms(1)]) (simp add: n)
    then show ?thesis by (simp add: n)
  qed
  with r show ?thesis
    by (intro exI [of _ n]) simp
qed

theorem rounded_loop_bounded_witness:
  "0 < interval indebted_page
   \<and> delta indebted_page \<le> 2 ^ 52 * interval indebted_page
   \<and> (\<exists>n s'. catchUp_fl (steady_clock 5000 1) 5000 100 1 indebted_page = Some (1 + n, s')
          \<and> ticks s' = ticks indebted_page + n
          \<and> (0 < n \<longrightarrow>
               real n * interval indebted_page
                 < delta indebted_page * (1 + unit_roundoff) ^ (n - 1)))"
proof -
  have h: "0 < interval indebted_page"
    and d: "delta indebted_page \<le> 2 ^ 52 * interval indebted_page"
    by (simp_all add: indebted_page_def stalled_page_def)
  from d have "delta indebted_page \<le> 2 ^ 52 * interval indebted_page
      \<or> (\<exists>j. 100 < fl (steady_clock 5000 1 (1 + j) - 5000))"
    by blast
  from rounded_loop_bounded [OF h this] h d show ?thesis by blast
qed

subsection \<open>One frame\<close>

lemma renderLoop_frame_fl_skip:
  "paused s \<or> fl (t - lastFrameStart s) < fl (interval s - delta s) \<Longrightarrow>
   renderLoop_frame_fl t clock s = Some s"
  by (simp add: renderLoop_frame_fl_def)

lemma renderLoop_frame_fl_loop:
  assumes "\<not> paused s" and "\<not> fl (t - lastFrameStart s) < fl (interval s - delta s)"
    and "catchUp_fl clock t (min 100 (fl (fl (t - lastFrameEnd s) * 4))) 1
           (fps_render_fl (clock 0)
              (s\<lparr>delta := fl (delta s + fl (t - lastFrameStart s)), lastFrameStart := t\<rparr>))
         = Some (1 + n,
             (fps_render_fl (clock 0)
               (s\<lparr>delta := fl (delta s + fl (t - lastFrameStart s)), lastFrameStart := t\<rparr>))
             \<lparr>ticks := ticks s + n, delta := d,
               tickTimes := fold record_sample (map clock [1..<1 + n]) (tickTimes s)\<rparr>)"
  shows "renderLoop_frame_fl t clock s =
           Some (s\<lparr>delta := min (interval s) d,
                   lastFrameStart := t,
                   lastFrameTimeStamp := clock 0,
                   frames := record_sample (fl (clock 0 - lastFrameTimeStamp s)) (frames s),
                   tickTimes := fold record_sample (map clock [1..<1 + n]) (tickTimes s),
                   ticks := ticks s + n,
                   draws := draws s + 1,
                   lastFrameEnd := clock (1 + n)\<rparr>)"
  using assms
  by (simp add: renderLoop_frame_fl_def Let_def) (simp add: fps_render_fl_def Let_def)

lemma renderLoop_frame_fl_unroll:
  assumes "\<not> paused s" and "\<not> fl (t - lastFrameStart s) < fl (interval s - delta s)"
    and "\<And>j. j < n \<Longrightarrow>
           interval s < debt (fl (delta s + fl (t - lastFrameStart s))) (interval s) j"
    and "\<And>j. j + 1 < n \<Longrightarrow>
           \<not> min 100 (fl (fl (t - lastFrameEnd s) * 4)) < fl (clock (1 + j) - t)"
    and "\<not> interval s < debt (fl (delta s + fl (t - lastFrameStart s))) (interval s) n
         \<or> (0 < n \<and> min 100 (fl (fl (t - lastFrameEnd s) * 4)) < fl (clock n - t))"
  shows "renderLoop_frame_fl t clock s =
           Some (s\<lparr>delta := min (interval s)
                            (debt (fl (delta s + fl (t - lastFrameStart s))) (interval s) n),
                   lastFrameStart := t,
                   lastFrameTimeStamp := clock 0,
                   frames := record_sample (fl (clock 0 - lastFrameTimeStamp s)) (frames s),
                   tickTimes := fold record_sample (map clock [1..<1 + n]) (tickTimes s),
                   ticks := ticks s + n,
                   draws := draws s + 1,
                   lastFrameEnd := clock (1 + n)\<rparr>)"
proof (rule renderLoop_frame_fl_loop [OF assms(1,2)])
  let ?s3 = "fps_render_fl (clock 0)
              (s\<lparr>delta := fl (delta s + fl (t - lastFrameStart s)), lastFrameStart := t\<rparr>)"
  let ?m = "min 100 (fl (fl (t - lastFrameEnd s) * 4))"
  have f: "interval ?s3 = interval s" "delta ?s3 = fl (delta s + fl (t - lastFrameStart s))"
    "ticks ?s3 = ticks s" "tickTimes ?s3 = tickTimes s"
    by (simp_all add: fps_render_fl_def Let_def)
  have 1: "\<And>j. j < n \<Longrightarrow> interval ?s3 < debt (delta ?s3) (interval ?s3) j"
    using assms(3) by (simp only: f)
  have 3: "\<not> interval ?s3 < debt (delta ?s3) (interval ?s3) n
           \<or> (0 < n \<and> ?m < fl (clock (1 + n - 1) - t))"
    using assms(5) by (simp only: f) simp
  from catchUp_fl_unroll [of n ?s3 ?m clock 1 t, OF 1 assms(4) 3]
  show "catchUp_fl clock t ?m 1 ?s3 =
          Some (1 + n, ?s3\<lparr>ticks := ticks s + n,
            delta := debt (fl (delta s + fl (t - lastFrameStart s))) (interval s) n,
            tickTimes := fold record_sample (map clock [1..<1 + n]) (tickTimes s)\<rparr>)"
    by (simp only: f)
qed

text \<open>
  The same for a whole frame: the loop starts from the rounded sum \<open>delta + timeDiff\<close>.
\<close>

lemma rounded_frame_bounded:
  assumes "0 < interval s"
    and "fl (delta s + fl (t - lastFrameStart s)) \<le> 2 ^ 52 * interval s
         \<or> (\<exists>j. min 100 (fl (fl (t - lastFrameEnd s) * 4)) < fl (clock (1 + j) - t))"
  shows "\<exists>n s'. renderLoop_frame_fl t clock s = Some s' \<and> ticks s' = ticks s + n
           \<and> (0 < n \<longrightarrow>
                real n * interval s
                  < fl (delta s + fl (t - lastFrameStart s)) * (1 + unit_roundoff) ^ (n - 1))"
proof (cases "paused s \<or> fl (t - lastFrameStart s) < fl (interval s - delta s)")
  case True
  then have "renderLoop_frame_fl t clock s = Some s" by (rule renderLoop_frame_fl_skip)
  then show ?thesis by (intro exI [of _ 0] exI [of _ s]) simp
next
  case False
  then have p: "\<not> paused s" and q: "\<not> fl (t - lastFrameStart s) < fl (interval s - delta s)"
    by auto
  let ?s3 = "fps_render_fl (clock 0)
              (s\<lparr>delta := fl (delta s + fl (t - lastFrameStart s)), lastFrameStart := t\<rparr>)"
  let ?m = "min 100 (fl (fl (t - lastFrameEnd s) * 4))"
  let ?D = "fl (delta s + fl (t - lastFrameStart s))"
  have f: "interval ?s3 = interval s" "delta ?s3 = ?D" "ticks ?s3 = ticks s"
    "tickTimes ?s3 = tickTimes s"
    by (simp_all add: fps_render_fl_def Let_def)
  have "(0 < interval ?s3 \<and> delta ?s3 \<le> 2 ^ 52 * interval ?s3)
        \<or> (\<exists>j. ?m < fl (clock (1 + j) - t))"
    using assms by (simp only: f) blast
  from catchUp_fl_result [OF this]
  obtain n where
    r: "catchUp_fl clock t ?m 1 ?s3 =
          Some (1 + n, ?s3\<lparr>ticks := ticks s + n, delta := debt ?D (interval s) n,
                         tickTimes := fold record_sample (map clock [1..<1 + n]) (tickTimes s)\<rparr>)"
    and a: "\<forall>j<n. interval s < debt ?D (interval s) j"
    by (simp only: f) blast
  from renderLoop_frame_fl_loop [OF p q r]
  have res: "\<exists>s'. renderLoop_frame_fl t clock s = Some s' \<and> ticks s' = ticks s + n"
    by simp
  have "real n * interval s < ?D * (1 + unit_roundoff) ^ (n - 1)" if "0 < n"
  proof -
    from that obtain n' where n: "n = Suc n'" by (cases n) simp_all
    have "real (Suc n') * interval s < ?D * (1 + unit_roundoff) ^ n'"
      using a by (intro debt_bound [OF assms(1)]) (simp add: n)
    then show ?thesis by (simp add: n)
  qed
  with res show ?thesis by blast
qed

lemma tie_sum_bound:
  assumes "0 < i" and "0 \<le> d" and "d \<le> i" and "i < fl (d + fl (i - d))"
  shows "fl (fl (d + fl (i - d)) - i) \<le> i"
proof -
  define w where "w = 1 + unit_roundoff"
  have w: "1 \<le> w" "0 \<le> w" by (simp_all add: w_def unit_roundoff_def)
  have td0: "0 \<le> fl (i - d)" using assms(3) by (simp add: fl_nonneg)
  have "fl (i - d) \<le> (i - d) * w" unfolding w_def using assms(3) by (simp add: fl_upper0)
  then have "d + fl (i - d) \<le> d + (i - d) * w" by simp
  also have "\<dots> = i * w - d * (w - 1)" by (simp add: algebra_simps)
  also have "\<dots> \<le> i * w" using assms(2) w by simp
  finally have b: "d + fl (i - d) \<le> i * w" .
  have b0: "0 \<le> d + fl (i - d)" using assms(2) td0 by simp
  have "fl (d + fl (i - d)) \<le> (d + fl (i - d)) * w"
    unfolding w_def using b0 by (rule fl_upper0)
  also have "\<dots> \<le> i * w * w" using b w by (simp add: mult_right_mono)
  finally have D: "fl (d + fl (i - d)) \<le> i * w * w" .
  have "fl (fl (d + fl (i - d)) - i) \<le> (fl (d + fl (i - d)) - i) * w"
    unfolding w_def using assms(4) by (intro fl_upper0) simp
  also have "\<dots> \<le> (i * w * w - i) * w" using D w by (simp add: mult_right_mono)
  also have "\<dots> = i * (w ^ 3 - w)" by (simp add: algebra_simps power3_eq_cube)
  also have "\<dots> \<le> i * 1"
    using roundoff_cube assms(1) unfolding w_def by (simp only: mult_le_cancel_left_pos)
  finally show ?thesis by simp
qed

text \<open>
  C10. A frame of a running page on the exact boundary of the skip test (the rounded
  \<open>timeDiff\<close> equals the rounded \<open>interval - delta\<close>), with an accumulator between 0 and a
  positive interval, is processed: the start of the last frame becomes this frame's,
  \<^verbatim>\<open>fps.render()\<close> records a sample, the cells are drawn. The universe is ticked at most
  once: not at all when the rounded sum \<open>delta + timeDiff\<close> is at most the interval (in exact
  arithmetic it is the interval), once when the sum rounds above the interval.
\<close>

theorem rounded_tie_frame:
  assumes "\<not> paused s"
    and "fl (thisFrameStart - lastFrameStart s) = fl (interval s - delta s)"
    and "0 < interval s" and "0 \<le> delta s" and "delta s \<le> interval s"
  shows "\<exists>s'. renderLoop_frame_fl thisFrameStart clock s = Some s'
           \<and> lastFrameStart s' = thisFrameStart
           \<and> frames s' = record_sample (fl (clock 0 - lastFrameTimeStamp s)) (frames s)
           \<and> draws s' = draws s + 1
           \<and> ticks s' =
               (if fl (delta s + fl (thisFrameStart - lastFrameStart s)) \<le> interval s
                then ticks s else ticks s + 1)
           \<and> delta s' =
               (if fl (delta s + fl (thisFrameStart - lastFrameStart s)) \<le> interval s
                then fl (delta s + fl (thisFrameStart - lastFrameStart s))
                else fl (fl (delta s + fl (thisFrameStart - lastFrameStart s)) - interval s))"
proof -
  let ?D = "fl (delta s + fl (thisFrameStart - lastFrameStart s))"
  have q: "\<not> fl (thisFrameStart - lastFrameStart s) < fl (interval s - delta s)"
    using assms(2) by simp
  show ?thesis
  proof (cases "?D \<le> interval s")
    case True
    have "renderLoop_frame_fl thisFrameStart clock s =
           Some (s\<lparr>delta := min (interval s) (debt ?D (interval s) 0),
                   lastFrameStart := thisFrameStart,
                   lastFrameTimeStamp := clock 0,
                   frames := record_sample (fl (clock 0 - lastFrameTimeStamp s)) (frames s),
                   tickTimes := fold record_sample (map clock [1..<1 + 0]) (tickTimes s),
                   ticks := ticks s + 0,
                   draws := draws s + 1,
                   lastFrameEnd := clock (1 + 0)\<rparr>)"
      using True by (intro renderLoop_frame_fl_unroll [OF assms(1) q]) simp_all
    with True show ?thesis by simp
  next
    case False
    then have gt: "interval s < ?D" by simp
    have le: "fl (?D - interval s) \<le> interval s"
      using tie_sum_bound [OF assms(3,4,5)] gt by (simp only: assms(2))
    have "renderLoop_frame_fl thisFrameStart clock s =
           Some (s\<lparr>delta := min (interval s) (debt ?D (interval s) 1),
                   lastFrameStart := thisFrameStart,
                   lastFrameTimeStamp := clock 0,
                   frames := record_sample (fl (clock 0 - lastFrameTimeStamp s)) (frames s),
                   tickTimes := fold record_sample (map clock [1..<1 + 1]) (tickTimes s),
                   ticks := ticks s + 1,
                   draws := draws s + 1,
                   lastFrameEnd := clock (1 + 1)\<rparr>)"
      using gt le by (intro renderLoop_frame_fl_unroll [OF assms(1) q]) simp_all
    with False le show ?thesis by simp
  qed
qed

theorem rounded_tie_frame_witness:
  "\<not> paused fresh_page
   \<and> fl (1 - lastFrameStart fresh_page) = fl (interval fresh_page - delta fresh_page)
   \<and> 0 < interval fresh_page \<and> 0 \<le> delta fresh_page \<and> delta fresh_page \<le> interval fresh_page
   \<and> (\<exists>s'. renderLoop_frame_fl 1 (prompt_clock 1) fresh_page = Some s'
          \<and> lastFrameStart s' = 1 \<and> draws s' = draws fresh_page + 1
          \<and> ticks s' = ticks fresh_page \<and> delta s' = 1)"
proof -
  have h: "\<not> paused fresh_page"
    "fl (1 - lastFrameStart fresh_page) = fl (interval fresh_page - delta fresh_page)"
    "0 < interval fresh_page" "0 \<le> delta fresh_page" "delta fresh_page \<le> interval fresh_page"
    by (simp_all add: fresh_page_def)
  have e: "fl (delta fresh_page + fl (1 - lastFrameStart fresh_page)) = 1" by code_simp
  have i: "interval fresh_page = 1" by (simp add: fresh_page_def)
  from rounded_tie_frame [OF h, of "prompt_clock 1"]
  have "\<exists>s'. renderLoop_frame_fl 1 (prompt_clock 1) fresh_page = Some s'
          \<and> lastFrameStart s' = 1 \<and> draws s' = draws fresh_page + 1
          \<and> ticks s' = ticks fresh_page \<and> delta s' = 1"
    by (simp only: e i) auto
  with h show ?thesis by blast
qed

subsection \<open>The examples\<close>

text \<open>
  The pages of the examples are reached from the fresh page by the slider, and the three
  frames of the examples, pass by pass: each \<open>fl\<close> is evaluated on its own.
\<close>

text \<open>
  The timestamps, intervals and debts of the examples are the doubles that JavaScript
  writes with these digits.
\<close>

lemma stamps_written:
  "fl (14150943396226414 / 10 ^ 12) = stamp_14150"
  "fl (117 / 100) = stamp_1_17"
  "fl (254140625 / 10 ^ 7) = stamp_25_41"
  "fl (2358490566037736 / 10 ^ 12) = interval page_slider7"
  "fl (24414062499999996 / 10 ^ 15) = interval tie_page"
  "fl (16999999999999993 / 10 ^ 17) = delta tie_page"
  by code_simp+

lemma slider7_reached: "rateSlider_input_fl 7 fresh_page = page_slider7"
proof -
  have "fl (1000 / rateSlider_rate_fl 7) = 5186375602716981 / 2 ^ 41" by code_simp
  then show ?thesis by (simp add: rateSlider_input_fl_def page_slider7_def)
qed

lemma slider100_reached: "rateSlider_input_fl 100 fresh_page = page_slider100"
proof -
  have "fl (1000 / rateSlider_rate_fl 100) = 1" by code_simp
  then show ?thesis by (simp add: rateSlider_input_fl_def page_slider100_def)
qed

lemma slider7_frame:
  "renderLoop_frame_fl stamp_14150 (prompt_clock stamp_14150) page_slider7 =
     Some (page_slider7\<lparr>delta := 1 / 2 ^ 40,
        lastFrameStart := stamp_14150,
        lastFrameTimeStamp := prompt_clock stamp_14150 0,
        frames := record_sample (7779563940946383 / 2 ^ 39) (frames page_slider7),
        tickTimes := fold record_sample (map (prompt_clock stamp_14150) [1..<1 + 6]) (tickTimes page_slider7),
        ticks := ticks page_slider7 + 6,
        draws := draws page_slider7 + 1,
        lastFrameEnd := prompt_clock stamp_14150 (1 + 6)\<rparr>)"
proof -
  define i :: real where "i = 5186375602716981 / 2 ^ 41"
  define d0 :: real where "d0 = 7779563404075471 / 2 ^ 39"
  define d1 :: real where "d1 = 3241484751698113 / 2 ^ 38"
  define d2 :: real where "d2 = 5186375602716981 / 2 ^ 39"
  define d3 :: real where "d3 = 486222712754717 / 2 ^ 36"
  define d4 :: real where "d4 = 2593187801358491 / 2 ^ 39"
  define d5 :: real where "d5 = 5186375602716983 / 2 ^ 41"
  define d6 :: real where "d6 = 1 / 2 ^ 40"
  have i: "interval page_slider7 = i" by (simp add: page_slider7_def i_def)
  have d: "fl (delta page_slider7 + fl (stamp_14150 - lastFrameStart page_slider7)) = d0" unfolding d0_def by code_simp
  have m: "min 100 (fl (fl (stamp_14150 - lastFrameEnd page_slider7) * 4)) = 100" by code_simp
  have w: "fl (prompt_clock stamp_14150 0 - lastFrameTimeStamp page_slider7) = 7779563940946383 / 2 ^ 39" by code_simp
  have s1: "fl (d0 - i) = d1" unfolding i_def d0_def d1_def by code_simp
  have s2: "fl (d1 - i) = d2" unfolding i_def d1_def d2_def by code_simp
  have s3: "fl (d2 - i) = d3" unfolding i_def d2_def d3_def by code_simp
  have s4: "fl (d3 - i) = d4" unfolding i_def d3_def d4_def by code_simp
  have s5: "fl (d4 - i) = d5" unfolding i_def d4_def d5_def by code_simp
  have s6: "fl (d5 - i) = d6" unfolding i_def d5_def d6_def by code_simp
  have b0: "debt d0 i 0 = d0" by simp
  have b1: "debt d0 i 1 = d1" by (simp add: eval_nat_numeral s1)
  have b2: "debt d0 i 2 = d2" by (simp add: eval_nat_numeral s1 s2)
  have b3: "debt d0 i 3 = d3" by (simp add: eval_nat_numeral s1 s2 s3)
  have b4: "debt d0 i 4 = d4" by (simp add: eval_nat_numeral s1 s2 s3 s4)
  have b5: "debt d0 i 5 = d5" by (simp add: eval_nat_numeral s1 s2 s3 s4 s5)
  have b6: "debt d0 i 6 = d6" by (simp add: eval_nat_numeral s1 s2 s3 s4 s5 s6)
  have c0: "i < d0" unfolding i_def d0_def by simp
  have c1: "i < d1" unfolding i_def d1_def by simp
  have c2: "i < d2" unfolding i_def d2_def by simp
  have c3: "i < d3" unfolding i_def d3_def by simp
  have c4: "i < d4" unfolding i_def d4_def by simp
  have c5: "i < d5" unfolding i_def d5_def by simp
  have c6: "\<not> i < d6" unfolding i_def d6_def by simp
  have f0: "interval page_slider7 < debt (fl (delta page_slider7 + fl (stamp_14150 - lastFrameStart page_slider7))) (interval page_slider7) 0"
    by (simp only: i d b0) (rule c0)
  have f1: "interval page_slider7 < debt (fl (delta page_slider7 + fl (stamp_14150 - lastFrameStart page_slider7))) (interval page_slider7) 1"
    by (simp only: i d b1) (rule c1)
  have f2: "interval page_slider7 < debt (fl (delta page_slider7 + fl (stamp_14150 - lastFrameStart page_slider7))) (interval page_slider7) 2"
    by (simp only: i d b2) (rule c2)
  have f3: "interval page_slider7 < debt (fl (delta page_slider7 + fl (stamp_14150 - lastFrameStart page_slider7))) (interval page_slider7) 3"
    by (simp only: i d b3) (rule c3)
  have f4: "interval page_slider7 < debt (fl (delta page_slider7 + fl (stamp_14150 - lastFrameStart page_slider7))) (interval page_slider7) 4"
    by (simp only: i d b4) (rule c4)
  have f5: "interval page_slider7 < debt (fl (delta page_slider7 + fl (stamp_14150 - lastFrameStart page_slider7))) (interval page_slider7) 5"
    by (simp only: i d b5) (rule c5)
  have f6: "\<not> interval page_slider7 < debt (fl (delta page_slider7 + fl (stamp_14150 - lastFrameStart page_slider7))) (interval page_slider7) 6"
    by (simp only: i d b6) (rule c6)
  have g0: "\<not> 100 < fl (prompt_clock stamp_14150 (1 + 0) - stamp_14150)"
    by code_simp
  have g1: "\<not> 100 < fl (prompt_clock stamp_14150 (1 + 1) - stamp_14150)"
    by code_simp
  have g2: "\<not> 100 < fl (prompt_clock stamp_14150 (1 + 2) - stamp_14150)"
    by code_simp
  have g3: "\<not> 100 < fl (prompt_clock stamp_14150 (1 + 3) - stamp_14150)"
    by code_simp
  have g4: "\<not> 100 < fl (prompt_clock stamp_14150 (1 + 4) - stamp_14150)"
    by code_simp
  have v: "min (interval page_slider7) (debt (fl (delta page_slider7 + fl (stamp_14150 - lastFrameStart page_slider7))) (interval page_slider7) 6) = 1 / 2 ^ 40"
    by (simp only: i d b6) (simp add: i_def d6_def)
  have "renderLoop_frame_fl stamp_14150 (prompt_clock stamp_14150) page_slider7 =
     Some (page_slider7\<lparr>delta := min (interval page_slider7) (debt (fl (delta page_slider7 + fl (stamp_14150 - lastFrameStart page_slider7))) (interval page_slider7) 6),
        lastFrameStart := stamp_14150,
        lastFrameTimeStamp := prompt_clock stamp_14150 0,
        frames := record_sample (fl (prompt_clock stamp_14150 0 - lastFrameTimeStamp page_slider7)) (frames page_slider7),
        tickTimes := fold record_sample (map (prompt_clock stamp_14150) [1..<1 + 6]) (tickTimes page_slider7),
        ticks := ticks page_slider7 + 6,
        draws := draws page_slider7 + 1,
        lastFrameEnd := prompt_clock stamp_14150 (1 + 6)\<rparr>)"
  proof (rule renderLoop_frame_fl_unroll)
    show "\<not> paused page_slider7" by (simp add: page_slider7_def fresh_page_def)
    show "\<not> fl (stamp_14150 - lastFrameStart page_slider7) < fl (interval page_slider7 - delta page_slider7)"
      by code_simp
    show "interval page_slider7 < debt (fl (delta page_slider7 + fl (stamp_14150 - lastFrameStart page_slider7))) (interval page_slider7) j" if "j < 6" for j
    proof -
      from that have "j = 0 \<or> j = 1 \<or> j = 2 \<or> j = 3 \<or> j = 4 \<or> j = 5" by arith
      with f0 f1 f2 f3 f4 f5 show ?thesis by blast
    qed
    show "\<not> min 100 (fl (fl (stamp_14150 - lastFrameEnd page_slider7) * 4)) < fl (prompt_clock stamp_14150 (1 + j) - stamp_14150)" if "j + 1 < 6" for j
    proof -
      from that have "j = 0 \<or> j = 1 \<or> j = 2 \<or> j = 3 \<or> j = 4" by arith
      with g0 g1 g2 g3 g4 show ?thesis unfolding m by blast
    qed
    from f6 show "\<not> interval page_slider7 < debt (fl (delta page_slider7 + fl (stamp_14150 - lastFrameStart page_slider7))) (interval page_slider7) 6
        \<or> (0 < (6::nat) \<and> min 100 (fl (fl (stamp_14150 - lastFrameEnd page_slider7) * 4)) < fl (prompt_clock stamp_14150 6 - stamp_14150))"
      by blast
  qed
  then show ?thesis by (simp only: v w)
qed

lemma slider100_frame:
  "renderLoop_frame_fl stamp_1_17 (prompt_clock stamp_1_17) page_slider100 =
     Some (page_slider100\<lparr>delta := 95701492081623 / 2 ^ 49,
        lastFrameStart := stamp_1_17,
        lastFrameTimeStamp := prompt_clock stamp_1_17 0,
        frames := record_sample (659201201316823 / 2 ^ 49) (frames page_slider100),
        tickTimes := fold record_sample (map (prompt_clock stamp_1_17) [1..<1 + 1]) (tickTimes page_slider100),
        ticks := ticks page_slider100 + 1,
        draws := draws page_slider100 + 1,
        lastFrameEnd := prompt_clock stamp_1_17 (1 + 1)\<rparr>)"
proof -
  define i :: real where "i = 1"
  define d0 :: real where "d0 = 658651445502935 / 2 ^ 49"
  define d1 :: real where "d1 = 95701492081623 / 2 ^ 49"
  have i: "interval page_slider100 = i" by (simp add: page_slider100_def i_def)
  have d: "fl (delta page_slider100 + fl (stamp_1_17 - lastFrameStart page_slider100)) = d0" unfolding d0_def by code_simp
  have m: "min 100 (fl (fl (stamp_1_17 - lastFrameEnd page_slider100) * 4)) = 658651445502935 / 2 ^ 47" by code_simp
  have w: "fl (prompt_clock stamp_1_17 0 - lastFrameTimeStamp page_slider100) = 659201201316823 / 2 ^ 49" by code_simp
  have s1: "fl (d0 - i) = d1" unfolding i_def d0_def d1_def by code_simp
  have b0: "debt d0 i 0 = d0" by simp
  have b1: "debt d0 i 1 = d1" by (simp add: eval_nat_numeral s1)
  have c0: "i < d0" unfolding i_def d0_def by simp
  have c1: "\<not> i < d1" unfolding i_def d1_def by simp
  have f0: "interval page_slider100 < debt (fl (delta page_slider100 + fl (stamp_1_17 - lastFrameStart page_slider100))) (interval page_slider100) 0"
    by (simp only: i d b0) (rule c0)
  have f1: "\<not> interval page_slider100 < debt (fl (delta page_slider100 + fl (stamp_1_17 - lastFrameStart page_slider100))) (interval page_slider100) 1"
    by (simp only: i d b1) (rule c1)
  have v: "min (interval page_slider100) (debt (fl (delta page_slider100 + fl (stamp_1_17 - lastFrameStart page_slider100))) (interval page_slider100) 1) = 95701492081623 / 2 ^ 49"
    by (simp only: i d b1) (simp add: i_def d1_def)
  have "renderLoop_frame_fl stamp_1_17 (prompt_clock stamp_1_17) page_slider100 =
     Some (page_slider100\<lparr>delta := min (interval page_slider100) (debt (fl (delta page_slider100 + fl (stamp_1_17 - lastFrameStart page_slider100))) (interval page_slider100) 1),
        lastFrameStart := stamp_1_17,
        lastFrameTimeStamp := prompt_clock stamp_1_17 0,
        frames := record_sample (fl (prompt_clock stamp_1_17 0 - lastFrameTimeStamp page_slider100)) (frames page_slider100),
        tickTimes := fold record_sample (map (prompt_clock stamp_1_17) [1..<1 + 1]) (tickTimes page_slider100),
        ticks := ticks page_slider100 + 1,
        draws := draws page_slider100 + 1,
        lastFrameEnd := prompt_clock stamp_1_17 (1 + 1)\<rparr>)"
  proof (rule renderLoop_frame_fl_unroll)
    show "\<not> paused page_slider100" by (simp add: page_slider100_def fresh_page_def)
    show "\<not> fl (stamp_1_17 - lastFrameStart page_slider100) < fl (interval page_slider100 - delta page_slider100)"
      by code_simp
    show "interval page_slider100 < debt (fl (delta page_slider100 + fl (stamp_1_17 - lastFrameStart page_slider100))) (interval page_slider100) j" if "j < 1" for j
    proof -
      from that have "j = 0" by arith
      with f0 show ?thesis by blast
    qed
    show "\<not> min 100 (fl (fl (stamp_1_17 - lastFrameEnd page_slider100) * 4)) < fl (prompt_clock stamp_1_17 (1 + j) - stamp_1_17)" if "j + 1 < 1" for j
      using that by simp
    from f1 show "\<not> interval page_slider100 < debt (fl (delta page_slider100 + fl (stamp_1_17 - lastFrameStart page_slider100))) (interval page_slider100) 1
        \<or> (0 < (1::nat) \<and> min 100 (fl (fl (stamp_1_17 - lastFrameEnd page_slider100) * 4)) < fl (prompt_clock stamp_1_17 1 - stamp_1_17))"
      by blast
  qed
  then show ?thesis by (simp only: v w)
qed

lemma tie_page_frame:
  "renderLoop_frame_fl stamp_25_41 (prompt_clock stamp_25_41) tie_page =
     Some (tie_page\<lparr>delta := 1 / 2 ^ 48,
        lastFrameStart := stamp_25_41,
        lastFrameTimeStamp := prompt_clock stamp_25_41 0,
        frames := record_sample (1706024231889797 / 2 ^ 46) (frames tie_page),
        tickTimes := fold record_sample (map (prompt_clock stamp_25_41) [1..<1 + 1]) (tickTimes tie_page),
        ticks := ticks tie_page + 1,
        draws := draws tie_page + 1,
        lastFrameEnd := prompt_clock stamp_25_41 (1 + 1)\<rparr>)"
proof -
  define i :: real where "i = 6871947673599999 / 2 ^ 48"
  define d0 :: real where "d0 = 3125 / 2 ^ 7"
  define d1 :: real where "d1 = 1 / 2 ^ 48"
  have i: "interval tie_page = i" by (simp add: tie_page_def i_def)
  have d: "fl (delta tie_page + fl (stamp_25_41 - lastFrameStart tie_page)) = d0" unfolding d0_def by code_simp
  have m: "min 100 (fl (fl (stamp_25_41 - lastFrameEnd tie_page) * 4)) = 1705818073459589 / 2 ^ 44" by code_simp
  have w: "fl (prompt_clock stamp_25_41 0 - lastFrameTimeStamp tie_page) = 1706024231889797 / 2 ^ 46" by code_simp
  have s1: "fl (d0 - i) = d1" unfolding i_def d0_def d1_def by code_simp
  have b0: "debt d0 i 0 = d0" by simp
  have b1: "debt d0 i 1 = d1" by (simp add: eval_nat_numeral s1)
  have c0: "i < d0" unfolding i_def d0_def by simp
  have c1: "\<not> i < d1" unfolding i_def d1_def by simp
  have f0: "interval tie_page < debt (fl (delta tie_page + fl (stamp_25_41 - lastFrameStart tie_page))) (interval tie_page) 0"
    by (simp only: i d b0) (rule c0)
  have f1: "\<not> interval tie_page < debt (fl (delta tie_page + fl (stamp_25_41 - lastFrameStart tie_page))) (interval tie_page) 1"
    by (simp only: i d b1) (rule c1)
  have v: "min (interval tie_page) (debt (fl (delta tie_page + fl (stamp_25_41 - lastFrameStart tie_page))) (interval tie_page) 1) = 1 / 2 ^ 48"
    by (simp only: i d b1) (simp add: i_def d1_def)
  have "renderLoop_frame_fl stamp_25_41 (prompt_clock stamp_25_41) tie_page =
     Some (tie_page\<lparr>delta := min (interval tie_page) (debt (fl (delta tie_page + fl (stamp_25_41 - lastFrameStart tie_page))) (interval tie_page) 1),
        lastFrameStart := stamp_25_41,
        lastFrameTimeStamp := prompt_clock stamp_25_41 0,
        frames := record_sample (fl (prompt_clock stamp_25_41 0 - lastFrameTimeStamp tie_page)) (frames tie_page),
        tickTimes := fold record_sample (map (prompt_clock stamp_25_41) [1..<1 + 1]) (tickTimes tie_page),
        ticks := ticks tie_page + 1,
        draws := draws tie_page + 1,
        lastFrameEnd := prompt_clock stamp_25_41 (1 + 1)\<rparr>)"
  proof (rule renderLoop_frame_fl_unroll)
    show "\<not> paused tie_page" by (simp add: tie_page_def fresh_page_def)
    show "\<not> fl (stamp_25_41 - lastFrameStart tie_page) < fl (interval tie_page - delta tie_page)"
      by code_simp
    show "interval tie_page < debt (fl (delta tie_page + fl (stamp_25_41 - lastFrameStart tie_page))) (interval tie_page) j" if "j < 1" for j
    proof -
      from that have "j = 0" by arith
      with f0 show ?thesis by blast
    qed
    show "\<not> min 100 (fl (fl (stamp_25_41 - lastFrameEnd tie_page) * 4)) < fl (prompt_clock stamp_25_41 (1 + j) - stamp_25_41)" if "j + 1 < 1" for j
      using that by simp
    from f1 show "\<not> interval tie_page < debt (fl (delta tie_page + fl (stamp_25_41 - lastFrameStart tie_page))) (interval tie_page) 1
        \<or> (0 < (1::nat) \<and> min 100 (fl (fl (stamp_25_41 - lastFrameEnd tie_page) * 4)) < fl (prompt_clock stamp_25_41 1 - stamp_25_41))"
      by blast
  qed
  then show ?thesis by (simp only: v w)
qed

lemma tie_page_reached: "run_fl tie_events fresh_page = Some tie_page"
proof -
  have i40: "fl (1000 / rateSlider_rate_fl 40) = 6871947673599999 / 2 ^ 48" by code_simp
  have "run_fl tie_events fresh_page =
          Some (rateSlider_input_fl 40
            (page_slider100\<lparr>delta := 95701492081623 / 2 ^ 49,
              lastFrameStart := stamp_1_17,
              lastFrameTimeStamp := prompt_clock stamp_1_17 0,
              frames := record_sample (659201201316823 / 2 ^ 49) (frames page_slider100),
              tickTimes := fold record_sample (map (prompt_clock stamp_1_17) [1..<1 + 1])
                (tickTimes page_slider100),
              ticks := ticks page_slider100 + 1,
              draws := draws page_slider100 + 1,
              lastFrameEnd := prompt_clock stamp_1_17 (1 + 1)\<rparr>))"
    by (simp add: tie_events_def slider100_reached slider100_frame)
  also have "\<dots> = Some tie_page"
    by (simp add: rateSlider_input_fl_def i40 page_slider100_def fresh_page_def tie_page_def
        record_sample_def splice_def unshift_def numeral_2_eq_2)
  finally show ?thesis .
qed

text \<open>
  The slider at 7 and a frame at 14150.943396226414 on the fresh page: the loop starts from
  that debt and ticks six times, and six intervals are more than the debt (the passes leave
  11792.452830188678, 9433.962264150943, 7075.471698113208, 4716.9811320754725,
  2358.4905660377367, and the last of them is still over the interval 2358.490566037736).
\<close>

theorem catch_up_overshoot_counterexample:
  "rateSlider_input_fl 7 fresh_page = page_slider7
   \<and> 0 < interval page_slider7
   \<and> fl (delta page_slider7 + fl (stamp_14150 - lastFrameStart page_slider7)) = stamp_14150
   \<and> map_option ticks
         (renderLoop_frame_fl stamp_14150 (prompt_clock stamp_14150) page_slider7) = Some 6
   \<and> stamp_14150 < 6 * interval page_slider7"
proof -
  have a: "0 < interval page_slider7" by (simp add: page_slider7_def)
  have b: "fl (delta page_slider7 + fl (stamp_14150 - lastFrameStart page_slider7)) = stamp_14150"
    by code_simp
  have c: "map_option ticks
         (renderLoop_frame_fl stamp_14150 (prompt_clock stamp_14150) page_slider7) = Some 6"
    by (simp add: slider7_frame) (simp add: page_slider7_def fresh_page_def)
  have d: "stamp_14150 < 6 * interval page_slider7"
    by (simp add: page_slider7_def stamp_14150_def)
  from slider7_reached a b c d show ?thesis by blast
qed

text \<open>
  The page after the slider at 100, a frame at 1.17 and the slider at 40, and a frame at
  25.4140625: \<open>timeDiff\<close> and \<open>interval - delta\<close> are both 24.2440625, the frame is
  processed, \<open>delta + timeDiff\<close> is 24.4140625, over the interval 24.414062499999996, and
  the universe is ticked.
\<close>

theorem tie_frame_steps_counterexample:
  "run_fl tie_events fresh_page = Some tie_page
   \<and> \<not> paused tie_page
   \<and> fl (stamp_25_41 - lastFrameStart tie_page) = fl (interval tie_page - delta tie_page)
   \<and> map_option ticks
         (renderLoop_frame_fl stamp_25_41 (prompt_clock stamp_25_41) tie_page)
       = Some (ticks tie_page + 1)"
proof -
  have a: "\<not> paused tie_page" by (simp add: tie_page_def)
  have b: "fl (stamp_25_41 - lastFrameStart tie_page) = fl (interval tie_page - delta tie_page)"
    by code_simp
  have c: "map_option ticks
         (renderLoop_frame_fl stamp_25_41 (prompt_clock stamp_25_41) tie_page)
       = Some (ticks tie_page + 1)"
    by (simp add: tie_page_frame)
  from tie_page_reached a b c show ?thesis by blast
qed

end
